theory Spec2Isabelle
  imports Complex_Main "HOL-Library.Char_ord" "HOL-Library.List_Lexorder" "HOL-Library.Multiset"
    "HOL-Library.Log_Nat"
begin

section \<open>Basic types\<close>

text \<open>
  A Go \<open>[]byte\<close> and a Go \<open>string\<close> are both sequences of 8-bit characters; \<open>len\<close> counts
  bytes.  A \<open>time.Time\<close> is an integer number of nanoseconds, a \<open>time.Duration\<close> likewise.
  Every function that reads the clock takes the reading \<open>now\<close> as an argument: one call
  of a public operation or of a handler runs at one clock reading, however often the
  source calls \<open>time.Now\<close> on the way.
\<close>

type_synonym bytes = string
type_synonym time = int
type_synonym duration = int

text \<open>
  The byte counters of the storage are \<open>uint64\<close>.  They are natural numbers here, and every
  addition and subtraction of the source is written with its wrap-around.
\<close>

definition uint64 :: "nat \<Rightarrow> nat" where
  "uint64 n = n mod 2 ^ 64"

definition u64_add :: "nat \<Rightarrow> nat \<Rightarrow> nat" where
  "u64_add a b = (a + b) mod 2 ^ 64"

definition u64_sub :: "nat \<Rightarrow> nat \<Rightarrow> nat" where
  "u64_sub a b = (a + 2 ^ 64 - b mod 2 ^ 64) mod 2 ^ 64"

section \<open>storage/list.go\<close>

text \<open>
  \<open>CachedObject\<close> without its two list pointers: the doubly-linked LRU list is the HOL list
  of its nodes from \<open>head\<close> (least recently used) to \<open>tail\<close>, and \<open>prev\<close>/\<open>next\<close> of a node
  are its neighbours in that list.  A node is known by its content: the keys of the list
  are distinct in every store that the operations can reach (\<open>storage_inv\<close> below), so
  two nodes of equal content are one node.
\<close>

record CachedObject =
  Key :: string
  Value :: bytes
  ExpirationTime :: time

definition GetBytesUsed :: "CachedObject \<Rightarrow> nat" where
  "GetBytesUsed c = uint64 (length (Key c) + length (Value c))"

type_synonym lruList = "CachedObject list"

definition lru_append :: "lruList \<Rightarrow> CachedObject \<Rightarrow> lruList" where
  "lru_append l node = l @ [node]"

definition lru_remove :: "lruList \<Rightarrow> CachedObject \<Rightarrow> lruList" where
  "lru_remove l node = remove1 node l"

definition moveToTail :: "lruList \<Rightarrow> CachedObject \<Rightarrow> lruList" where
  "moveToTail l node =
     (if l \<noteq> [] \<and> node = last l then l else lru_append (lru_remove l node) node)"

definition front :: "lruList \<Rightarrow> CachedObject option" where
  "front l = (case l of [] \<Rightarrow> None | node # _ \<Rightarrow> Some node)"

section \<open>storage/storage.go\<close>

datatype error =
    ErrKeyNotFound
  | ErrDeleteKeyNotFound
  | ErrMemoryLimitExceeded
  | ErrKeyTooLong
  | ErrKeyTooShort
  | ErrObjectTooLarge
  | ErrValueTooShort
  | ErrInvalidTTL

definition MaxKeySizeBytes :: nat where
  "MaxKeySizeBytes = 1024"

definition MaxValueSizeBytes :: nat where
  "MaxValueSizeBytes = 64 * 1024 * 1024"

record InMemoryStorage =
  memoryUsedBytes :: nat
  maxMemory :: nat
  store :: "string \<rightharpoonup> CachedObject"
  lru :: lruList

definition NewInMemoryStorage :: "nat \<Rightarrow> InMemoryStorage" where
  "NewInMemoryStorage cap =
     \<lparr>memoryUsedBytes = 0, maxMemory = cap, store = Map.empty, lru = []\<rparr>"

definition validateKey :: "string \<Rightarrow> error option" where
  "validateKey key =
     (if length key = 0 then Some ErrKeyTooShort
      else if length key > MaxKeySizeBytes then Some ErrKeyTooLong
      else None)"

text \<open>\<open>deleteUnlocked\<close>: the error it returns (if any) and the storage afterwards.\<close>

definition deleteUnlocked :: "InMemoryStorage \<Rightarrow> string \<Rightarrow> error option \<times> InMemoryStorage" where
  "deleteUnlocked s key =
     (case store s key of
        None \<Rightarrow> (Some ErrDeleteKeyNotFound, s)
      | Some node \<Rightarrow>
          (None, s\<lparr>lru := lru_remove (lru s) node,
                   store := (store s)(Key node := None),
                   memoryUsedBytes := u64_sub (memoryUsedBytes s) (GetBytesUsed node)\<rparr>))"

definition Get :: "InMemoryStorage \<Rightarrow> string \<Rightarrow> time \<Rightarrow> (error + bytes) \<times> InMemoryStorage" where
  "Get s key now =
     (case validateKey key of
        Some err \<Rightarrow> (Inl err, s)
      | None \<Rightarrow>
          (case store s key of
             None \<Rightarrow> (Inl ErrKeyNotFound, s)
           | Some node \<Rightarrow>
               if ExpirationTime node < now
               then (Inl ErrKeyNotFound, snd (deleteUnlocked s key))
               else (Inr (Value node), s\<lparr>lru := moveToTail (lru s) node\<rparr>)))"

definition Delete :: "InMemoryStorage \<Rightarrow> string \<Rightarrow> error option \<times> InMemoryStorage" where
  "Delete s key =
     (case validateKey key of
        Some err \<Rightarrow> (Some err, s)
      | None \<Rightarrow> deleteUnlocked s key)"

text \<open>
  The loop of \<open>limitedTtlCleanup\<close>.  The first argument is the part of the list that starts
  at \<open>ptr\<close>: the source saves \<open>ptr.next\<close> before it deletes \<open>ptr\<close>, and deleting \<open>ptr\<close> leaves
  the nodes behind it linked as they were, so the walk visits the nodes of the list as it
  stood on entry.  The result is \<open>freedBytes\<close> and the storage.
\<close>

fun ttlCleanupLoop ::
  "CachedObject list \<Rightarrow> time \<Rightarrow> nat \<Rightarrow> nat \<Rightarrow> InMemoryStorage \<Rightarrow> nat \<times> InMemoryStorage" where
  "ttlCleanupLoop [] now minimumReclaimBytes freedBytes s = (freedBytes, s)"
| "ttlCleanupLoop (ptr # next) now minimumReclaimBytes freedBytes s =
     (if ExpirationTime ptr < now then
        (let freedBytes' = u64_add freedBytes (GetBytesUsed ptr);
             s' = snd (deleteUnlocked s (Key ptr))
         in if freedBytes' \<ge> minimumReclaimBytes then (freedBytes', s')
            else ttlCleanupLoop next now minimumReclaimBytes freedBytes' s')
      else ttlCleanupLoop next now minimumReclaimBytes freedBytes s)"

definition limitedTtlCleanup :: "InMemoryStorage \<Rightarrow> nat \<Rightarrow> time \<Rightarrow> nat \<times> InMemoryStorage" where
  "limitedTtlCleanup s minimumReclaimBytes now =
     ttlCleanupLoop (lru s) now minimumReclaimBytes 0 s"

fun evictionLoop ::
  "CachedObject list \<Rightarrow> nat \<Rightarrow> nat \<Rightarrow> InMemoryStorage \<Rightarrow> nat \<times> InMemoryStorage" where
  "evictionLoop [] minimumReclaimBytes freedBytes s = (freedBytes, s)"
| "evictionLoop (ptr # next) minimumReclaimBytes freedBytes s =
     (let freedBytes' = u64_add freedBytes (GetBytesUsed ptr);
          s' = snd (deleteUnlocked s (Key ptr))
      in if freedBytes' \<ge> minimumReclaimBytes then (freedBytes', s')
         else evictionLoop next minimumReclaimBytes freedBytes' s')"

definition limitedEviction :: "InMemoryStorage \<Rightarrow> nat \<Rightarrow> nat \<times> InMemoryStorage" where
  "limitedEviction s minimumReclaimBytes = evictionLoop (lru s) minimumReclaimBytes 0 s"

text \<open>
  \<open>Put\<close>, lines 107 to 125: the block entered when
  \<open>memoryUsedBytes + additionalMemoryNeeded > maxMemory\<close>.  It returns the error of line 116
  or the re-resolved \<open>existingObjectSize\<close>, and the storage after the cleanup and eviction.
\<close>

definition reclaim ::
  "InMemoryStorage \<Rightarrow> string \<Rightarrow> nat \<Rightarrow> time \<Rightarrow> (error + nat) \<times> InMemoryStorage" where
  "reclaim s key additionalMemoryNeeded now =
     (let (freed1, s1) = limitedTtlCleanup s additionalMemoryNeeded now;
          (freedBytes, s2) =
             (if freed1 < additionalMemoryNeeded
              then (let (freed2, s2) = limitedEviction s1 (u64_sub additionalMemoryNeeded freed1)
                    in (u64_add freed1 freed2, s2))
              else (freed1, s1))
      in if freedBytes < additionalMemoryNeeded then (Inl ErrMemoryLimitExceeded, s2)
         else (case store s2 key of
                 Some existing \<Rightarrow> (Inr (GetBytesUsed existing), s2)
               | None \<Rightarrow> (Inr 0, s2)))"

text \<open>\<open>Put\<close>, lines 127 to 150: delete the old entry, check the room again, insert.\<close>

definition insertNew ::
  "InMemoryStorage \<Rightarrow> string \<Rightarrow> bytes \<Rightarrow> duration \<Rightarrow> time \<Rightarrow> nat \<Rightarrow> nat
     \<Rightarrow> error option \<times> InMemoryStorage" where
  "insertNew s key val ttl now newObjectSize existingObjectSize =
     (let s1 = (if existingObjectSize > 0 then snd (deleteUnlocked s key) else s)
      in if u64_add (memoryUsedBytes s1) newObjectSize > maxMemory s1
         then (Some ErrMemoryLimitExceeded, s1)
         else (let cachedObject = \<lparr>Key = key, Value = val, ExpirationTime = now + ttl\<rparr>
               in (None, s1\<lparr>store := (store s1)(key \<mapsto> cachedObject),
                            memoryUsedBytes :=
                              u64_add (memoryUsedBytes s1) (GetBytesUsed cachedObject),
                            lru := lru_append (lru s1) cachedObject\<rparr>)))"

definition Put ::
  "InMemoryStorage \<Rightarrow> string \<Rightarrow> bytes \<Rightarrow> duration \<Rightarrow> time \<Rightarrow> error option \<times> InMemoryStorage" where
  "Put s key val ttl now =
     (case validateKey key of
        Some err \<Rightarrow> (Some err, s)
      | None \<Rightarrow>
          if ttl \<le> 0 then (Some ErrInvalidTTL, s)
          else if length val = 0 then (Some ErrValueTooShort, s)
          else
            (let newObjectSize = uint64 (length key + length val)
             in if newObjectSize > maxMemory s then (Some ErrObjectTooLarge, s)
                else
                  (let existingObjectSize =
                         (case store s key of
                            Some existing \<Rightarrow> GetBytesUsed existing
                          | None \<Rightarrow> 0);
                       additionalMemoryNeeded =
                         (if newObjectSize > existingObjectSize
                          then u64_sub newObjectSize existingObjectSize else 0)
                   in if u64_add (memoryUsedBytes s) additionalMemoryNeeded > maxMemory s
                      then (case reclaim s key additionalMemoryNeeded now of
                              (Inl err, s') \<Rightarrow> (Some err, s')
                            | (Inr existingObjectSize', s') \<Rightarrow>
                                insertNew s' key val ttl now newObjectSize existingObjectSize')
                      else insertNew s key val ttl now newObjectSize existingObjectSize)))"

text \<open>A public operation with the clock reading it runs at, and a run of such operations.\<close>

datatype operation =
    OpGet string
  | OpPut string bytes duration
  | OpDelete string

fun step :: "InMemoryStorage \<Rightarrow> operation \<times> time \<Rightarrow> InMemoryStorage" where
  "step s (OpGet key, now) = snd (Get s key now)"
| "step s (OpPut key val ttl, now) = snd (Put s key val ttl now)"
| "step s (OpDelete key, now) = snd (Delete s key)"

definition run :: "InMemoryStorage \<Rightarrow> (operation \<times> time) list \<Rightarrow> InMemoryStorage" where
  "run s ops = foldl step s ops"

section \<open>internal/remote: the promise map\<close>

text \<open>
  \<open>PromiseMap\<close> is the map it guards; the lock and the cleanup goroutine are not part of
  the model.  Each method takes the clock reading \<open>now\<close> and returns the map afterwards.
\<close>

record Promise =
  PromiseKey :: string
  Size :: int
  CreatedAt :: time
  ExpiresAt :: time

type_synonym PromiseMap = "string \<rightharpoonup> Promise"

definition Second :: duration where
  "Second = 1000000000"

definition Millisecond :: duration where
  "Millisecond = 1000000"

definition defaultPromiseTTL :: duration where
  "defaultPromiseTTL = 30 * Second"

definition Create :: "PromiseMap \<Rightarrow> string \<Rightarrow> int \<Rightarrow> duration \<Rightarrow> time \<Rightarrow> bool \<times> PromiseMap" where
  "Create pm key size0 ttl0 now =
     (let ttl = (if ttl0 \<le> 0 then defaultPromiseTTL else ttl0);
          fresh = \<lparr>PromiseKey = key, Size = size0, CreatedAt = now, ExpiresAt = now + ttl\<rparr>
      in case pm key of
           Some existing \<Rightarrow>
             if ExpiresAt existing > now then (False, pm)
             else (True, (pm(key := None))(key \<mapsto> fresh))
         | None \<Rightarrow> (True, pm(key \<mapsto> fresh)))"

text \<open>
  \<open>PromiseMap.Get\<close>: the promise returned (\<open>None\<close> for \<open>nil\<close>) and the map.  The first test
  is \<open>ExpiresAt.After(now)\<close> under the read lock, the other \<open>ExpiresAt.Before(now)\<close> under
  the write lock.
\<close>

definition Promise_Get :: "PromiseMap \<Rightarrow> string \<Rightarrow> time \<Rightarrow> Promise option \<times> PromiseMap" where
  "Promise_Get pm key now =
     (case pm key of
        None \<Rightarrow> (None, pm)
      | Some promise \<Rightarrow>
          if ExpiresAt promise > now then (Some promise, pm)
          else if ExpiresAt promise < now then (None, pm(key := None))
          else (Some promise, pm))"

definition Fulfill :: "PromiseMap \<Rightarrow> string \<Rightarrow> PromiseMap" where
  "Fulfill pm key = pm(key := None)"

definition RemainingTTL :: "PromiseMap \<Rightarrow> string \<Rightarrow> time \<Rightarrow> duration \<times> PromiseMap" where
  "RemainingTTL pm key now =
     (case Promise_Get pm key now of
        (None, pm') \<Rightarrow> (0, pm')
      | (Some promise, pm') \<Rightarrow>
          (let remaining = ExpiresAt promise - now
           in if remaining < 0 then (0, pm') else (remaining, pm')))"

section \<open>internal/remote/remote.go\<close>

text \<open>
  Go's integer division \<open>/\<close> truncates towards zero, and \<open>%\<close> is its remainder.
  \<open>Duration.Milliseconds\<close> is that division by \<open>10 ^ 6\<close>.  \<open>int64\<close> wraps a product into
  64 bits.
\<close>

definition quo :: "int \<Rightarrow> int \<Rightarrow> int" where
  "quo a b = (if (a < 0) = (b < 0) then \<bar>a\<bar> div \<bar>b\<bar> else - (\<bar>a\<bar> div \<bar>b\<bar>))"

definition rem :: "int \<Rightarrow> int \<Rightarrow> int" where
  "rem a b = a - b * quo a b"

definition int64 :: "int \<Rightarrow> int" where
  "int64 x = (x + 2 ^ 63) mod 2 ^ 64 - 2 ^ 63"

definition Milliseconds :: "duration \<Rightarrow> int" where
  "Milliseconds d = quo d Millisecond"

text \<open>
  \<open>Duration.Seconds\<close> returns a \<open>float64\<close>.  A finite \<open>float64\<close> is a rational number
  \<open>m * 2 ^ k\<close> with \<open>\<bar>m\<bar> < 2 ^ 53\<close> and \<open>- 1074 \<le> k\<close>, and every conversion and every
  arithmetic operation returns the exact result rounded to the nearest such number, a tie
  going to the even \<open>m\<close> (IEEE 754 binary64, the one rounding mode of Go).  \<open>float64 x\<close> is
  that rounding of the rational \<open>x\<close>: \<open>exponent x\<close> is the \<open>e\<close> with
  \<open>2 ^ e \<le> \<bar>x\<bar> < 2 ^ (e + 1)\<close>, found from the bit lengths of numerator and denominator,
  and the last bit of the result weighs \<open>2 ^ (e - 52)\<close>, or \<open>2 ^ - 1074\<close> for a subnormal
  number.  Overflow to infinity, from \<open>2 ^ 1024\<close> on, is left out: the seconds of an
  \<open>int64\<close> duration stay below \<open>2 ^ 34\<close>.
\<close>

definition round_half_even :: "rat \<Rightarrow> int" where
  "round_half_even x =
     (let n = \<lfloor>x\<rfloor>; f = x - of_int n
      in if f < 1 / 2 then n else if 1 / 2 < f then n + 1 else if even n then n else n + 1)"

definition exponent :: "rat \<Rightarrow> int" where
  "exponent x =
     (let (p, q) = quotient_of \<bar>x\<bar>; e = bitlen p - bitlen q
      in if 2 powi e \<le> \<bar>x\<bar> then e else e - 1)"

definition float64 :: "rat \<Rightarrow> rat" where
  "float64 x =
     (if x = 0 then 0
      else let k = max (exponent x - 52) (- 1074)
           in of_int (round_half_even (x / 2 powi k)) * 2 powi k)"

text \<open>
  \<open>Duration.Seconds\<close> of package \<open>time\<close> is
  \<open>sec := d / Second; nsec := d % Second; return float64(sec) + float64(nsec)/1e9\<close>:
  two conversions, a division by the constant \<open>10 ^ 9\<close> and an addition, each of them
  rounded.  The conversion \<open>int(f)\<close> of a \<open>float64\<close> discards the fraction.
\<close>

definition Seconds :: "duration \<Rightarrow> rat" where
  "Seconds d =
     (let sec = quo d Second; nsec = rem d Second
      in float64 (float64 (of_int sec) + float64 (float64 (of_int nsec) / 1000000000)))"

definition int_of_float64 :: "rat \<Rightarrow> int" where
  "int_of_float64 f = (if f < 0 then - \<lfloor>- f\<rfloor> else \<lfloor>f\<rfloor>)"

definition defaultTTL :: duration where
  "defaultTTL = 30 * 60 * Second"

definition headerSize :: string where "headerSize = ''x-jc-size''"
definition headerTTL :: string where "headerTTL = ''x-jc-ttl''"
definition headerSuperhot :: string where "headerSuperhot = ''x-jc-superhot''"
definition headerPromiseTTL :: string where "headerPromiseTTL = ''x-jc-promise-ttl''"
definition headerRetryAfter :: string where "headerRetryAfter = ''Retry-After''"

definition StatusOK :: nat where "StatusOK = 200"
definition StatusAccepted :: nat where "StatusAccepted = 202"
definition StatusBadRequest :: nat where "StatusBadRequest = 400"
definition StatusConflict :: nat where "StatusConflict = 409"
definition StatusLengthRequired :: nat where "StatusLengthRequired = 411"
definition StatusRequestEntityTooLarge :: nat where "StatusRequestEntityTooLarge = 413"
definition StatusInternalServerError :: nat where "StatusInternalServerError = 500"
definition StatusInsufficientStorage :: nat where "StatusInsufficientStorage = 507"

text \<open>
  A request header that the handler reads with \<open>Header.Get\<close> and \<open>strconv.ParseInt\<close>:
  absent (or empty), present but rejected by \<open>ParseInt\<close>, or parsed to an \<open>int64\<close>.
\<close>

datatype header_int = HeaderAbsent | HeaderInvalid | HeaderInt int

text \<open>
  A header value of the response: \<open>Number n\<close> is the decimal text that \<open>strconv.FormatInt\<close>
  or \<open>strconv.Itoa\<close> writes for \<open>n\<close>.
\<close>

datatype header_value = Number int | Text string

record Response =
  StatusCode :: nat
  Header :: "(string \<times> header_value) list"
  Body :: bytes

text \<open>\<open>http.Error\<close>: the status and the message (the content-type headers it adds are left out).\<close>

definition http_Error :: "string \<Rightarrow> nat \<Rightarrow> Response" where
  "http_Error msg code = \<lparr>StatusCode = code, Header = [], Body = msg\<rparr>"

fun Error_text :: "error \<Rightarrow> string" where
  "Error_text ErrKeyNotFound = ''key not found''"
| "Error_text ErrDeleteKeyNotFound = ''delete key not found''"
| "Error_text ErrMemoryLimitExceeded = ''memory limit exceeded''"
| "Error_text ErrKeyTooLong = ''key is too long''"
| "Error_text ErrKeyTooShort = ''key is too short''"
| "Error_text ErrObjectTooLarge = ''value exceeds maximum size''"
| "Error_text ErrValueTooShort = ''value is too short''"
| "Error_text ErrInvalidTTL = ''TTL must be greater than zero''"

text \<open>
  Modelled from the spec: the storage package that \<open>remote.go\<close> imports
  (\<open>internal/storage\<close>) is not among the sources; its \<open>Get\<close> returns a \<open>CacheEntry\<close> and it
  has \<open>CanFit\<close>.  The spec has \<open>get\<close> return "a snapshot view that also exposes current
  remaining TTL and byte size", and \<open>can_fit(key_len, value_len)\<close> as
  \<open>key_len + value_len \<le> memory_cap\<close>.  \<open>GetEntry\<close> is \<open>Get\<close> of \<open>storage/storage.go\<close> with
  that snapshot around the value.
\<close>

record CacheEntry =
  EntryValue :: bytes
  EntrySize :: int
  EntryRemainingTTL :: duration

definition GetEntry ::
  "InMemoryStorage \<Rightarrow> string \<Rightarrow> time \<Rightarrow> (error + CacheEntry) \<times> InMemoryStorage" where
  "GetEntry s key now =
     (case Get s key now of
        (Inl err, s') \<Rightarrow> (Inl err, s')
      | (Inr v, s') \<Rightarrow>
          (Inr \<lparr>EntryValue = v, EntrySize = int (length v),
                EntryRemainingTTL =
                  (case store s key of Some node \<Rightarrow> ExpirationTime node - now | None \<Rightarrow> 0)\<rparr>,
           s'))"

definition CanFit :: "InMemoryStorage \<Rightarrow> int \<Rightarrow> int \<Rightarrow> bool" where
  "CanFit s keyLen valueLen \<longleftrightarrow> keyLen + valueLen \<le> int (maxMemory s)"

record CacheServer =
  storage :: InMemoryStorage
  promises :: PromiseMap

definition setResponseHeaders :: "CacheEntry \<Rightarrow> (string \<times> header_value) list" where
  "setResponseHeaders entry =
     [(headerSize, Number (EntrySize entry)),
      (headerTTL, Number (Milliseconds (EntryRemainingTTL entry))),
      (headerSuperhot, Text ''false'')]"

record PostRequest =
  sizeHeader :: header_int
  promiseTTLHeader :: header_int
  dryRunHeader :: string

text \<open>The 409 of \<open>handlePost\<close>, written twice in the source (lines 170-174 and 187-191).\<close>

definition conflictResponse :: "PromiseMap \<Rightarrow> string \<Rightarrow> time \<Rightarrow> Response \<times> PromiseMap" where
  "conflictResponse pm key now =
     (let (remainingTTL, pm') = RemainingTTL pm key now
      in (\<lparr>StatusCode = StatusConflict,
           Header = [(headerPromiseTTL, Number (Milliseconds remainingTTL)),
                     (headerRetryAfter, Number (int_of_float64 (Seconds remainingTTL) + 1))],
           Body = []\<rparr>, pm'))"

text \<open>\<open>handlePost\<close>, lines 164 to 196: from the dry-run header on.\<close>

definition postPromise ::
  "CacheServer \<Rightarrow> PostRequest \<Rightarrow> string \<Rightarrow> time \<Rightarrow> int \<Rightarrow> duration \<Rightarrow> Response \<times> CacheServer" where
  "postPromise srv r key now valueSize promiseTTL =
     (let dryRun = (dryRunHeader r = ''true'')
      in case Promise_Get (promises srv) key now of
           (Some existingPromise, pm) \<Rightarrow>
             (let (resp, pm') = conflictResponse pm key now in (resp, srv\<lparr>promises := pm'\<rparr>))
         | (None, pm) \<Rightarrow>
             if dryRun
             then (\<lparr>StatusCode = StatusAccepted,
                    Header = [(headerPromiseTTL, Number (Milliseconds promiseTTL))],
                    Body = []\<rparr>, srv\<lparr>promises := pm\<rparr>)
             else (case Create pm key valueSize promiseTTL now of
                     (False, pm1) \<Rightarrow>
                       (let (resp, pm') = conflictResponse pm1 key now
                        in (resp, srv\<lparr>promises := pm'\<rparr>))
                   | (True, pm1) \<Rightarrow>
                       (\<lparr>StatusCode = StatusAccepted,
                         Header = [(headerPromiseTTL, Number (Milliseconds promiseTTL))],
                         Body = []\<rparr>, srv\<lparr>promises := pm1\<rparr>)))"

text \<open>\<open>handlePost\<close>, lines 153 to 162: the promise TTL header.\<close>

definition postPromiseTTL ::
  "CacheServer \<Rightarrow> PostRequest \<Rightarrow> string \<Rightarrow> time \<Rightarrow> int \<Rightarrow> Response \<times> CacheServer" where
  "postPromiseTTL srv r key now valueSize =
     (case promiseTTLHeader r of
        HeaderAbsent \<Rightarrow> postPromise srv r key now valueSize defaultPromiseTTL
      | HeaderInvalid \<Rightarrow>
          (http_Error ''Invalid x-jc-promise-ttl header: must be positive integer (milliseconds)''
             StatusBadRequest, srv)
      | HeaderInt ttlMs \<Rightarrow>
          if ttlMs \<le> 0
          then (http_Error ''Invalid x-jc-promise-ttl header: must be positive integer (milliseconds)''
                  StatusBadRequest, srv)
          else postPromise srv r key now valueSize (int64 (ttlMs * Millisecond)))"

definition handlePost :: "CacheServer \<Rightarrow> PostRequest \<Rightarrow> string \<Rightarrow> time \<Rightarrow> Response \<times> CacheServer" where
  "handlePost srv0 r key now =
     (case GetEntry (storage srv0) key now of
        (Inr entry, st) \<Rightarrow>
          (\<lparr>StatusCode = StatusOK, Header = setResponseHeaders entry, Body = []\<rparr>,
           srv0\<lparr>storage := st\<rparr>)
      | (Inl err, st) \<Rightarrow>
          (let srv = srv0\<lparr>storage := st\<rparr>
           in if err \<noteq> ErrKeyNotFound
              then (http_Error (Error_text err) StatusInternalServerError, srv)
              else (case sizeHeader r of
                      HeaderAbsent \<Rightarrow> postPromiseTTL srv r key now (- 1)
                    | HeaderInvalid \<Rightarrow>
                        (http_Error ''Invalid x-jc-size header: must be non-negative integer''
                           StatusBadRequest, srv)
                    | HeaderInt valueSize \<Rightarrow>
                        if valueSize < 0
                        then (http_Error ''Invalid x-jc-size header: must be non-negative integer''
                                StatusBadRequest, srv)
                        else if \<not> CanFit (storage srv) (int (length key)) valueSize
                        then (http_Error ''Value too large for storage capacity''
                                StatusInsufficientStorage, srv)
                        else postPromiseTTL srv r key now valueSize)))"

text \<open>
  The body of a PUT as \<open>io.ReadAll\<close> finds it: the bytes the client sent, or a read error.
  \<open>http.MaxBytesReader\<close> turns a body longer than \<open>MaxValueSizeBytes\<close> into its own error.
\<close>

datatype body_read = BodyBytes bytes | BodyReadError

record PutRequest =
  ContentLength :: int
  RequestBody :: body_read
  ttlHeader :: header_int

text \<open>\<open>handlePut\<close>, lines 274 to 308: store the value and map the error.\<close>

definition putStore ::
  "CacheServer \<Rightarrow> string \<Rightarrow> bytes \<Rightarrow> duration \<Rightarrow> time \<Rightarrow> Response \<times> CacheServer" where
  "putStore srv0 key val ttl now =
     (case Put (storage srv0) key val ttl now of
        (Some err, st) \<Rightarrow>
          (let srv = srv0\<lparr>storage := st\<rparr>;
               released = srv\<lparr>promises := Fulfill (promises srv) key\<rparr>
           in if err = ErrMemoryLimitExceeded
              then (http_Error (Error_text err) StatusInsufficientStorage, srv)
              else if err = ErrObjectTooLarge
              then (http_Error (Error_text err) StatusRequestEntityTooLarge, released)
              else if err = ErrKeyTooLong \<or> err = ErrKeyTooShort
              then (http_Error (Error_text err) StatusBadRequest, released)
              else if err = ErrValueTooShort
              then (http_Error (Error_text err) StatusBadRequest, released)
              else (http_Error (Error_text err) StatusInternalServerError, srv))
      | (None, st) \<Rightarrow>
          (\<lparr>StatusCode = StatusOK, Header = [], Body = []\<rparr>,
           srv0\<lparr>storage := st, promises := Fulfill (promises srv0) key\<rparr>))"

text \<open>\<open>handlePut\<close>, lines 234 to 272: read the body and the TTL header.\<close>

definition putBody ::
  "CacheServer \<Rightarrow> PutRequest \<Rightarrow> string \<Rightarrow> time \<Rightarrow> Response \<times> CacheServer" where
  "putBody srv r key now =
     (case RequestBody r of
        BodyReadError \<Rightarrow> (http_Error ''Failed to read request body'' StatusBadRequest, srv)
      | BodyBytes val \<Rightarrow>
          if length val > MaxValueSizeBytes
          then (http_Error ''Payload exceeds maximum allowed size'' StatusRequestEntityTooLarge,
                srv\<lparr>promises := Fulfill (promises srv) key\<rparr>)
          else if int (length val) \<noteq> ContentLength r
          then (http_Error ''Incomplete request body'' StatusBadRequest, srv)
          else (case ttlHeader r of
                  HeaderAbsent \<Rightarrow> putStore srv key val defaultTTL now
                | HeaderInvalid \<Rightarrow>
                    (http_Error ''Invalid x-jc-ttl header: must be positive integer (milliseconds)''
                       StatusBadRequest, srv)
                | HeaderInt ttlMs \<Rightarrow>
                    if ttlMs \<le> 0
                    then (http_Error
                            ''Invalid x-jc-ttl header: must be positive integer (milliseconds)''
                            StatusBadRequest, srv)
                    else putStore srv key val (int64 (ttlMs * Millisecond)) now))"

definition handlePut :: "CacheServer \<Rightarrow> PutRequest \<Rightarrow> string \<Rightarrow> time \<Rightarrow> Response \<times> CacheServer" where
  "handlePut srv0 r key now =
     (if ContentLength r < 0
      then (http_Error ''Content-Length required'' StatusLengthRequired, srv0)
      else if ContentLength r > int MaxValueSizeBytes
      then (http_Error ''Payload exceeds maximum allowed size'' StatusRequestEntityTooLarge, srv0)
      else (case Promise_Get (promises srv0) key now of
              (None, pm) \<Rightarrow>
                (http_Error ''No active promise for this key; call POST first'' StatusConflict,
                 srv0\<lparr>promises := pm\<rparr>)
            | (Some promise, pm) \<Rightarrow>
                (let srv = srv0\<lparr>promises := pm\<rparr>
                 in if Size promise \<ge> 0 \<and> ContentLength r \<noteq> Size promise
                    then (http_Error ''Content-Length does not match promised size'' StatusConflict,
                          srv\<lparr>promises := Fulfill (promises srv) key\<rparr>)
                    else putBody srv r key now)))"

text \<open>
  When the header checks of \<open>handlePost\<close> let a request through: the size header is absent,
  or a non-negative integer that fits, and the promise TTL header is absent or a positive
  integer.
\<close>

definition postHeadersPass :: "InMemoryStorage \<Rightarrow> PostRequest \<Rightarrow> string \<Rightarrow> bool" where
  "postHeadersPass s r key \<longleftrightarrow>
     (case sizeHeader r of
        HeaderAbsent \<Rightarrow> True
      | HeaderInvalid \<Rightarrow> False
      | HeaderInt valueSize \<Rightarrow> 0 \<le> valueSize \<and> CanFit s (int (length key)) valueSize) \<and>
     (case promiseTTLHeader r of
        HeaderAbsent \<Rightarrow> True
      | HeaderInvalid \<Rightarrow> False
      | HeaderInt ttlMs \<Rightarrow> 0 < ttlMs)"

text \<open>The promise TTL that \<open>handlePost\<close> works with once the header has passed.\<close>

definition requestedPromiseTTL :: "PostRequest \<Rightarrow> duration" where
  "requestedPromiseTTL r =
     (case promiseTTLHeader r of
        HeaderInt ttlMs \<Rightarrow> int64 (ttlMs * Millisecond)
      | _ \<Rightarrow> defaultPromiseTTL)"

text \<open>The spec's retry hint, \<open>ceil(remaining in seconds) + 1\<close>, for comparison.\<close>

definition spec_retry_after :: "duration \<Rightarrow> int" where
  "spec_retry_after remaining = - ((- remaining) div Second) + 1"

section \<open>internal/rendezvous/rendezvous.go\<close>

text \<open>
  A node with its two memoised fields.  The hash (\<open>xxh3\<close>, an outside library) is a
  parameter \<open>hasher\<close> of everything below: any function from bytes to a \<open>uint64\<close>.
\<close>

record Node =
  node_id :: string
  port :: int
  identityString :: string
  identityHash :: nat

record nodeScore =
  node :: Node
  score :: nat

definition scoreBetter :: "nodeScore \<Rightarrow> nodeScore \<Rightarrow> bool" where
  "scoreBetter a b =
     (if score a \<noteq> score b then score a > score b
      else identityString (node a) < identityString (node b))"

text \<open>\<open>binary.LittleEndian.PutUint64\<close>: the eight bytes of \<open>v\<close>, lowest first.\<close>

definition LittleEndian_PutUint64 :: "nat \<Rightarrow> bytes" where
  "LittleEndian_PutUint64 v =
     [char_of v, char_of (v div 2 ^ 8), char_of (v div 2 ^ 16), char_of (v div 2 ^ 24),
      char_of (v div 2 ^ 32), char_of (v div 2 ^ 40), char_of (v div 2 ^ 48),
      char_of (v div 2 ^ 56)]"

definition computeScore :: "(bytes \<Rightarrow> nat) \<Rightarrow> bytes \<Rightarrow> Node \<Rightarrow> nodeScore" where
  "computeScore hasher key n =
     \<lparr>node = n, score = hasher (key @ LittleEndian_PutUint64 (identityHash n))\<rparr>"

text \<open>The body of the loop of the \<open>k == 1\<close> path: \<open>best\<close> after the node \<open>n\<close>.\<close>

definition bestStep :: "(bytes \<Rightarrow> nat) \<Rightarrow> bytes \<Rightarrow> nodeScore \<Rightarrow> Node \<Rightarrow> nodeScore" where
  "bestStep hasher key best n =
     (let s = computeScore hasher key n in if scoreBetter s best then s else best)"

text \<open>
  The body of the loop of the \<open>k == 2\<close> path.  \<open>second\<close> starts as the zero \<open>nodeScore\<close>,
  whose \<open>node\<close> is \<open>nil\<close>, and every later value has a node: it is an option here, \<open>None\<close>
  for the zero value, so that \<open>second.node == nil\<close> is \<open>second = None\<close>.
\<close>

definition topTwoStep ::
  "(bytes \<Rightarrow> nat) \<Rightarrow> bytes \<Rightarrow> nodeScore \<times> nodeScore option \<Rightarrow> Node
     \<Rightarrow> nodeScore \<times> nodeScore option" where
  "topTwoStep hasher key st n =
     (case st of (first, second) \<Rightarrow>
        (let s = computeScore hasher key n
         in if scoreBetter s first then (s, Some first)
            else (case second of
                    None \<Rightarrow> (first, Some s)
                  | Some second' \<Rightarrow>
                      if scoreBetter s second' then (first, Some s) else (first, second))))"

text \<open>
  \<open>GetNodes\<close> on the node list of the router's snapshot.  \<open>sort.Slice\<close> is a parameter:
  the standard library's sort, of which only its contract is used (see \<open>sorts\<close> below).
\<close>

definition GetNodes ::
  "((nodeScore \<Rightarrow> nodeScore \<Rightarrow> bool) \<Rightarrow> nodeScore list \<Rightarrow> nodeScore list)
     \<Rightarrow> (bytes \<Rightarrow> nat) \<Rightarrow> Node list \<Rightarrow> bytes \<Rightarrow> int \<Rightarrow> Node list" where
  "GetNodes sort_Slice hasher nodes key k =
     (if length nodes = 0 \<or> k \<le> 0 then []
      else if k = 1 then
        (case nodes of
           [] \<Rightarrow> []
         | n0 # rest \<Rightarrow>
             [node (foldl (bestStep hasher key) (computeScore hasher key n0) rest)])
      else if k = 2 then
        (case nodes of
           [] \<Rightarrow> []
         | n0 # rest \<Rightarrow>
             (case foldl (topTwoStep hasher key) (computeScore hasher key n0, None) rest of
                (first, None) \<Rightarrow> [node first]
              | (first, Some second) \<Rightarrow> [node first, node second]))
      else
        (let scores = map (computeScore hasher key) nodes;
             sorted = sort_Slice scoreBetter scores;
             k' = (if k > int (length scores) then int (length scores) else k)
         in map node (take (nat k') sorted)))"

text \<open>
  The contract of \<open>sort.Slice\<close> on a list \<open>xs\<close> with the comparison \<open>lessf\<close>: the result is a
  permutation of \<open>xs\<close> in which no element is less than one before it.  Insertion sort is
  one function that meets it; it stands in for the library's sort in examples.
\<close>

definition sorts :: "(('a \<Rightarrow> 'a \<Rightarrow> bool) \<Rightarrow> 'a list \<Rightarrow> 'a list) \<Rightarrow> ('a \<Rightarrow> 'a \<Rightarrow> bool) \<Rightarrow> 'a list \<Rightarrow> bool" where
  "sorts sort_Slice lessf xs \<longleftrightarrow>
     mset (sort_Slice lessf xs) = mset xs \<and>
     sorted_wrt (\<lambda>a b. \<not> lessf b a) (sort_Slice lessf xs)"

fun insert_sorted :: "('a \<Rightarrow> 'a \<Rightarrow> bool) \<Rightarrow> 'a \<Rightarrow> 'a list \<Rightarrow> 'a list" where
  "insert_sorted lessf x [] = [x]"
| "insert_sorted lessf x (y # ys) =
     (if lessf x y then x # y # ys else y # insert_sorted lessf x ys)"

definition insertion_sort :: "('a \<Rightarrow> 'a \<Rightarrow> bool) \<Rightarrow> 'a list \<Rightarrow> 'a list" where
  "insertion_sort lessf xs = foldl (\<lambda>acc x. insert_sorted lessf x acc) [] xs"

text \<open>
  What the \<open>k == 2\<close> loop keeps, after the scores in \<open>A\<close>: \<open>f\<close> is the best of \<open>A\<close>, and the
  second is absent when \<open>A\<close> has one element, else the best of the others.
\<close>

definition topTwo :: "nodeScore set \<Rightarrow> nodeScore \<times> nodeScore option \<Rightarrow> bool" where
  "topTwo A st \<longleftrightarrow>
     (case st of (f, sec) \<Rightarrow>
        f \<in> A \<and> (\<forall>x \<in> A. \<not> scoreBetter x f) \<and>
        (case sec of
           None \<Rightarrow> A = {f}
         | Some s \<Rightarrow> s \<in> A \<and> s \<noteq> f \<and> (\<forall>x \<in> A - {f}. \<not> scoreBetter x s)))"

section \<open>The storage invariant\<close>

text \<open>
  What holds of the storage between two public operations.  An entry is well formed when
  its key has a valid length and its value is shorter than \<open>2 ^ 63\<close> bytes, as every Go
  slice is.  The storage is consistent when the LRU list holds each key once, the map holds
  exactly the nodes of the list under their keys, \<open>memoryUsedBytes\<close> is the sum of the
  nodes' sizes and does not exceed \<open>maxMemory\<close>, and \<open>maxMemory\<close> is below \<open>2 ^ 63\<close>,
  so that no sum of two byte counts wraps around.
\<close>

definition entry_ok :: "CachedObject \<Rightarrow> bool" where
  "entry_ok c \<longleftrightarrow> 1 \<le> length (Key c) \<and> length (Key c) \<le> MaxKeySizeBytes \<and> length (Value c) < 2 ^ 63"

definition storage_inv :: "InMemoryStorage \<Rightarrow> bool" where
  "storage_inv s \<longleftrightarrow>
     distinct (map Key (lru s)) \<and>
     (\<forall>k c. store s k = Some c \<longleftrightarrow> (c \<in> set (lru s) \<and> Key c = k)) \<and>
     memoryUsedBytes s = sum_list (map GetBytesUsed (lru s)) \<and>
     memoryUsedBytes s \<le> maxMemory s \<and>
     maxMemory s < 2 ^ 63 \<and>
     (\<forall>c \<in> set (lru s). entry_ok c)"

text \<open>An operation whose value (if it has one) is shorter than \<open>2 ^ 63\<close> bytes.\<close>

definition slice_ok :: "operation \<Rightarrow> bool" where
  "slice_ok op = (case op of OpPut key val ttl \<Rightarrow> length val < 2 ^ 63 | _ \<Rightarrow> True)"


section \<open>Example stores\<close>

text \<open>
  Two stores reached from a fresh one, with one-hour entries of six bytes each:
  \<open>store_b\<close> (capacity 20) after \<open>Put("b", "22222")\<close>, and \<open>store_ab\<close> (capacity 12, full)
  after \<open>Put("a", "11111")\<close> and \<open>Put("b", "22222")\<close>, with \<open>a\<close> at the LRU head;
  \<open>store_ab_less_a\<close> is \<open>store_ab\<close> once \<open>a\<close> is gone.
\<close>

definition hour :: duration where
  "hour = 3600000000000"

definition obj_a :: CachedObject where
  "obj_a = \<lparr>Key = ''a'', Value = ''11111'', ExpirationTime = hour\<rparr>"

definition obj_b :: CachedObject where
  "obj_b = \<lparr>Key = ''b'', Value = ''22222'', ExpirationTime = hour\<rparr>"

definition store_b :: InMemoryStorage where
  "store_b = \<lparr>memoryUsedBytes = 6, maxMemory = 20, store = [''b'' \<mapsto> obj_b], lru = [obj_b]\<rparr>"

definition store_ab :: InMemoryStorage where
  "store_ab = \<lparr>memoryUsedBytes = 12, maxMemory = 12,
               store = [''a'' \<mapsto> obj_a, ''b'' \<mapsto> obj_b], lru = [obj_a, obj_b]\<rparr>"

definition store_ab_less_a :: InMemoryStorage where
  "store_ab_less_a = \<lparr>memoryUsedBytes = 6, maxMemory = 12,
               store = [''b'' \<mapsto> obj_b], lru = [obj_b]\<rparr>"

section \<open>Example servers and requests\<close>

text \<open>
  A server with an empty store of 1000 bytes and one promise for the key \<open>x\<close>, created at
  time 0 and expiring 1.5 seconds later: with no size (\<open>-1\<close>), with size 0 and with size 10.
  Each is what a POST with \<open>x-jc-promise-ttl: 1500\<close> (and the size, if any, in \<open>x-jc-size\<close>)
  makes of the fresh server at time 0.
  A POST without headers, the same as a dry run, and a PUT of the five bytes \<open>hello\<close>.
\<close>

definition promise_x :: Promise where
  "promise_x = \<lparr>PromiseKey = ''x'', Size = - 1, CreatedAt = 0, ExpiresAt = 1500000000\<rparr>"

definition promise_zero :: Promise where
  "promise_zero = \<lparr>PromiseKey = ''x'', Size = 0, CreatedAt = 0, ExpiresAt = 1500000000\<rparr>"

definition promise_ten :: Promise where
  "promise_ten = \<lparr>PromiseKey = ''x'', Size = 10, CreatedAt = 0, ExpiresAt = 1500000000\<rparr>"

definition server_with :: "Promise \<Rightarrow> CacheServer" where
  "server_with p = \<lparr>storage = NewInMemoryStorage 1000, promises = [''x'' \<mapsto> p]\<rparr>"

definition fresh_server :: CacheServer where
  "fresh_server = \<lparr>storage = NewInMemoryStorage 1000, promises = Map.empty\<rparr>"

definition post_with :: "header_int \<Rightarrow> PostRequest" where
  "post_with size_hint =
     \<lparr>sizeHeader = size_hint, promiseTTLHeader = HeaderInt 1500, dryRunHeader = []\<rparr>"

definition plain_post :: PostRequest where
  "plain_post = \<lparr>sizeHeader = HeaderAbsent, promiseTTLHeader = HeaderAbsent, dryRunHeader = []\<rparr>"

definition dry_post :: PostRequest where
  "dry_post = \<lparr>sizeHeader = HeaderAbsent, promiseTTLHeader = HeaderAbsent, dryRunHeader = ''true''\<rparr>"

text \<open>
  A promise that lives for 16777217 seconds, as a POST with
  \<open>x-jc-promise-ttl: 16777217000\<close> makes it at time 0: one nanosecond later its remaining
  lifetime is one nanosecond short of \<open>2 ^ 24 + 1\<close> seconds.
\<close>

definition promise_long :: Promise where
  "promise_long =
     \<lparr>PromiseKey = ''x'', Size = - 1, CreatedAt = 0, ExpiresAt = 16777217000000000\<rparr>"

definition long_post :: PostRequest where
  "long_post =
     \<lparr>sizeHeader = HeaderAbsent, promiseTTLHeader = HeaderInt 16777217000, dryRunHeader = []\<rparr>"

definition put_hello :: PutRequest where
  "put_hello = \<lparr>ContentLength = 5, RequestBody = BodyBytes ''hello'', ttlHeader = HeaderAbsent\<rparr>"

section \<open>Example nodes\<close>

text \<open>
  Three nodes with distinct identity strings; \<open>node_b\<close> and \<open>node_c\<close> share their identity
  hash, so that they tie under any hash of the combined key.  \<open>byte_sum\<close> is a toy hash.
\<close>

definition byte_sum :: "bytes \<Rightarrow> nat" where
  "byte_sum bs = sum_list (map of_char bs)"

definition node_a :: Node where
  "node_a = \<lparr>node_id = ''a'', port = 1, identityString = ''a:1'', identityHash = 3\<rparr>"

definition node_b :: Node where
  "node_b = \<lparr>node_id = ''b'', port = 2, identityString = ''b:2'', identityHash = 5\<rparr>"

definition node_c :: Node where
  "node_c = \<lparr>node_id = ''c'', port = 3, identityString = ''c:3'', identityHash = 5\<rparr>"

section \<open>Arithmetic without wrap-around\<close>

lemma uint64_small: "n < 2 ^ 64 \<Longrightarrow> uint64 n = n"
  by (simp add: uint64_def)

lemma u64_add_small: "a + b < 2 ^ 64 \<Longrightarrow> u64_add a b = a + b"
  by (simp add: u64_add_def)

lemma u64_sub_small: "b \<le> a \<Longrightarrow> a < 2 ^ 64 \<Longrightarrow> u64_sub a b = a - b"
proof -
  assume h: "b \<le> a" "a < 2 ^ 64"
  then have b: "b < 2 ^ 64" by simp
  have e: "a + 2 ^ 64 - b = (a - b) + 2 ^ 64" using h by simp
  have d: "a - b < 2 ^ 64" using h by simp
  have "u64_sub a b = (a + 2 ^ 64 - b) mod 2 ^ 64" using b by (simp add: u64_sub_def)
  also have "\<dots> = (a - b + 2 ^ 64) mod 2 ^ 64" by (simp only: e)
  also have "\<dots> = a - b" using d by simp
  finally show ?thesis .
qed

section \<open>Consequences of the invariant\<close>

lemma entry_ok_size: "entry_ok c \<Longrightarrow> GetBytesUsed c = length (Key c) + length (Value c)"
proof -
  assume "entry_ok c"
  then have "length (Key c) + length (Value c) < 1024 + 2 ^ 63"
    by (simp add: entry_ok_def MaxKeySizeBytes_def)
  then have "length (Key c) + length (Value c) < (2::nat) ^ 64" by simp
  then show ?thesis by (simp add: GetBytesUsed_def uint64_small)
qed

lemma entry_ok_pos: "entry_ok c \<Longrightarrow> 1 \<le> GetBytesUsed c"
  by (simp add: entry_ok_size) (simp add: entry_ok_def)

lemma inv_lookup: "storage_inv s \<Longrightarrow> c \<in> set (lru s) \<Longrightarrow> store s (Key c) = Some c"
  by (simp add: storage_inv_def)

lemma inv_member: "storage_inv s \<Longrightarrow> store s k = Some c \<Longrightarrow> c \<in> set (lru s) \<and> Key c = k"
  by (simp add: storage_inv_def)

lemma inv_absent: "storage_inv s \<Longrightarrow> store s k = None \<Longrightarrow> k \<notin> Key ` set (lru s)"
proof
  assume "storage_inv s" and n: "store s k = None" and "k \<in> Key ` set (lru s)"
  then obtain c where "c \<in> set (lru s)" "Key c = k" by auto
  with \<open>storage_inv s\<close> have "store s k = Some c" using inv_lookup by blast
  with n show False by simp
qed

lemma inv_mem_bound: "storage_inv s \<Longrightarrow> memoryUsedBytes s < 2 ^ 63"
  by (simp add: storage_inv_def)

lemma sum_list_member_le:
  "x \<in> set xs \<Longrightarrow> (f x :: nat) \<le> sum_list (map f xs)"
  by (induction xs) auto

lemma inv_size_le: "storage_inv s \<Longrightarrow> c \<in> set (lru s) \<Longrightarrow> GetBytesUsed c \<le> memoryUsedBytes s"
  by (simp add: storage_inv_def sum_list_member_le)

lemma sum_list_remove1_nat:
  "x \<in> set xs \<Longrightarrow> sum_list (map f (remove1 x xs)) = sum_list (map f xs) - (f x :: nat)"
proof (induction xs)
  case Nil
  then show ?case by simp
next
  case (Cons a xs)
  show ?case
  proof (cases "x = a")
    case True
    then show ?thesis by simp
  next
    case False
    with Cons.prems have "x \<in> set xs" by simp
    with Cons.IH sum_list_member_le [of x xs f] False show ?thesis by simp
  qed
qed

lemma distinct_map_remove1: "distinct (map f xs) \<Longrightarrow> distinct (map f (remove1 x xs))"
proof (induction xs)
  case Nil
  then show ?case by simp
next
  case (Cons a xs)
  have "set (remove1 x xs) \<subseteq> set xs" by (rule set_remove1_subset)
  with Cons show ?case by auto
qed

lemma deleteUnlocked_absent:
  "store s key = None \<Longrightarrow> deleteUnlocked s key = (Some ErrDeleteKeyNotFound, s)"
  by (simp add: deleteUnlocked_def)

lemma deleteUnlocked_present:
  assumes "storage_inv s" and "store s key = Some c"
  shows "deleteUnlocked s key =
           (None, s\<lparr>lru := remove1 c (lru s), store := (store s)(key := None),
                    memoryUsedBytes := memoryUsedBytes s - GetBytesUsed c\<rparr>)"
proof -
  have c: "c \<in> set (lru s)" "Key c = key" using inv_member [OF assms] by simp_all
  have "GetBytesUsed c \<le> memoryUsedBytes s"
    using assms(1) c(1) by (rule inv_size_le)
  moreover have "memoryUsedBytes s < 2 ^ 64"
    using inv_mem_bound [OF assms(1)] by simp
  ultimately have "u64_sub (memoryUsedBytes s) (GetBytesUsed c) = memoryUsedBytes s - GetBytesUsed c"
    by (rule u64_sub_small)
  then show ?thesis using assms(2) c by (simp add: deleteUnlocked_def lru_remove_def)
qed

lemma inv_delete:
  assumes "storage_inv s" and "store s key = Some c"
  shows "storage_inv (s\<lparr>lru := remove1 c (lru s), store := (store s)(key := None),
                    memoryUsedBytes := memoryUsedBytes s - GetBytesUsed c\<rparr>)"
proof -
  have c: "c \<in> set (lru s)" "Key c = key" using inv_member [OF assms] by simp_all
  have d: "distinct (map Key (lru s))" using assms(1) by (simp add: storage_inv_def)
  then have dl: "distinct (lru s)" by (simp add: distinct_map)
  have uniq: "c' = c" if "c' \<in> set (lru s)" "Key c' = key" for c'
  proof -
    from d have "inj_on Key (set (lru s))" by (simp add: distinct_map)
    then show ?thesis using c that by (auto dest: inj_onD)
  qed
  have st: "\<And>k c'. store s k = Some c' \<longleftrightarrow> (c' \<in> set (lru s) \<and> Key c' = k)"
    using assms(1) by (simp add: storage_inv_def)
  have 1: "distinct (map Key (remove1 c (lru s)))"
    using d by (rule distinct_map_remove1)
  have 2: "((store s)(key := None)) k = Some c' \<longleftrightarrow> (c' \<in> set (remove1 c (lru s)) \<and> Key c' = k)" for k c'
  proof (cases "k = key")
    case True
    then show ?thesis using uniq [of c'] dl by auto
  next
    case False
    then show ?thesis using st [of k c'] dl c by auto
  qed
  have 3: "memoryUsedBytes s - GetBytesUsed c = sum_list (map GetBytesUsed (remove1 c (lru s)))"
    using assms(1) c(1) by (simp add: storage_inv_def sum_list_remove1_nat)
  have "memoryUsedBytes s \<le> maxMemory s" using assms(1) by (simp add: storage_inv_def)
  then have 4: "memoryUsedBytes s - GetBytesUsed c \<le> maxMemory s" by simp
  have 5: "\<forall>c' \<in> set (remove1 c (lru s)). entry_ok c'"
    using assms(1) dl by (simp add: storage_inv_def)
  have 6: "maxMemory s < 2 ^ 63" using assms(1) by (simp add: storage_inv_def)
  define s' where "s' = s\<lparr>lru := remove1 c (lru s), store := (store s)(key := None),
                    memoryUsedBytes := memoryUsedBytes s - GetBytesUsed c\<rparr>"
  have p: "lru s' = remove1 c (lru s)" "store s' = (store s)(key := None)"
    "memoryUsedBytes s' = memoryUsedBytes s - GetBytesUsed c" "maxMemory s' = maxMemory s"
    by (simp_all add: s'_def)
  have "storage_inv s'"
    unfolding storage_inv_def p by (intro conjI allI 1 2 3 4 5 6)
  then show ?thesis by (simp only: s'_def)
qed

section \<open>The operations keep the invariant\<close>

lemma delete_node:
  assumes "storage_inv s" and "c \<in> set (lru s)"
  shows "storage_inv (snd (deleteUnlocked s (Key c)))"
    and "lru (snd (deleteUnlocked s (Key c))) = remove1 c (lru s)"
    and "memoryUsedBytes (snd (deleteUnlocked s (Key c))) = memoryUsedBytes s - GetBytesUsed c"
    and "maxMemory (snd (deleteUnlocked s (Key c))) = maxMemory s"
    and "store (snd (deleteUnlocked s (Key c))) = (store s)(Key c := None)"
proof -
  have l: "store s (Key c) = Some c" using assms by (rule inv_lookup)
  note d = deleteUnlocked_present [OF assms(1) l]
  show "storage_inv (snd (deleteUnlocked s (Key c)))"
    using inv_delete [OF assms(1) l] by (simp add: d)
  show "lru (snd (deleteUnlocked s (Key c))) = remove1 c (lru s)" by (simp add: d)
  show "memoryUsedBytes (snd (deleteUnlocked s (Key c))) = memoryUsedBytes s - GetBytesUsed c"
    by (simp add: d)
  show "maxMemory (snd (deleteUnlocked s (Key c))) = maxMemory s" by (simp add: d)
  show "store (snd (deleteUnlocked s (Key c))) = (store s)(Key c := None)" by (simp add: d)
qed

lemma delete_head_of_rest:
  assumes "storage_inv s" and "lru s = ys @ ptr # rest"
  shows "lru (snd (deleteUnlocked s (Key ptr))) = ys @ rest"
proof -
  have "distinct (map Key (lru s))" using assms(1) by (simp add: storage_inv_def)
  then have "distinct (lru s)" by (simp add: distinct_map)
  then have "ptr \<notin> set ys" using assms(2) by simp
  moreover have "ptr \<in> set (lru s)" using assms(2) by simp
  ultimately show ?thesis
    using delete_node(2) [OF assms(1)] assms(2) by (simp add: remove1_append)
qed

lemma evictionLoop_inv:
  "storage_inv s \<Longrightarrow> lru s = ys @ xs \<Longrightarrow>
   storage_inv (snd (evictionLoop xs m freed s)) \<and>
   maxMemory (snd (evictionLoop xs m freed s)) = maxMemory s"
proof (induction xs arbitrary: s freed)
  case Nil
  then show ?case by simp
next
  case (Cons ptr rest)
  let ?s' = "snd (deleteUnlocked s (Key ptr))"
  have m: "ptr \<in> set (lru s)" using Cons.prems(2) by simp
  have i: "storage_inv ?s'" using Cons.prems(1) m by (rule delete_node(1))
  have l: "lru ?s' = ys @ rest" using Cons.prems by (rule delete_head_of_rest)
  have c: "maxMemory ?s' = maxMemory s" using Cons.prems(1) m by (rule delete_node(4))
  show ?case
    using Cons.IH [OF i l, of "u64_add freed (GetBytesUsed ptr)"] i c
    by (simp add: Let_def)
qed

lemma ttlCleanupLoop_inv:
  "storage_inv s \<Longrightarrow> lru s = ys @ xs \<Longrightarrow>
   storage_inv (snd (ttlCleanupLoop xs now m freed s)) \<and>
   maxMemory (snd (ttlCleanupLoop xs now m freed s)) = maxMemory s"
proof (induction xs arbitrary: s freed ys)
  case Nil
  then show ?case by simp
next
  case (Cons ptr rest)
  show ?case
  proof (cases "ExpirationTime ptr < now")
    case True
    let ?s' = "snd (deleteUnlocked s (Key ptr))"
    have m: "ptr \<in> set (lru s)" using Cons.prems(2) by simp
    have i: "storage_inv ?s'" using Cons.prems(1) m by (rule delete_node(1))
    have l: "lru ?s' = ys @ rest" using Cons.prems by (rule delete_head_of_rest)
    have c: "maxMemory ?s' = maxMemory s" using Cons.prems(1) m by (rule delete_node(4))
    show ?thesis
      using Cons.IH [OF i l, of "u64_add freed (GetBytesUsed ptr)"] i c True
      by (simp add: Let_def)
  next
    case False
    have l: "lru s = (ys @ [ptr]) @ rest" using Cons.prems(2) by simp
    show ?thesis using Cons.IH [OF Cons.prems(1) l, of freed] False by simp
  qed
qed

lemma reclaim_inv:
  assumes "storage_inv s"
  shows "storage_inv (snd (reclaim s key m now))"
    and "maxMemory (snd (reclaim s key m now)) = maxMemory s"
    and "fst (reclaim s key m now) = Inr e \<Longrightarrow>
           e = (case store (snd (reclaim s key m now)) key of
                  Some existing \<Rightarrow> GetBytesUsed existing | None \<Rightarrow> 0)"
proof -
  obtain freed1 s1 where c: "limitedTtlCleanup s m now = (freed1, s1)" by (cases "limitedTtlCleanup s m now")
  have s1: "storage_inv s1 \<and> maxMemory s1 = maxMemory s"
    using ttlCleanupLoop_inv [of s "[]" "lru s" now m 0] assms c
    by (simp add: limitedTtlCleanup_def)
  obtain freed2 s2 where ev: "limitedEviction s1 (u64_sub m freed1) = (freed2, s2)"
    by (cases "limitedEviction s1 (u64_sub m freed1)")
  have s2: "storage_inv s2 \<and> maxMemory s2 = maxMemory s"
    using evictionLoop_inv [of s1 "[]" "lru s1" "u64_sub m freed1" 0] s1 ev
    by (simp add: limitedEviction_def)
  show "storage_inv (snd (reclaim s key m now))"
    using s1 s2 by (simp add: reclaim_def c ev split: option.split)
  show "maxMemory (snd (reclaim s key m now)) = maxMemory s"
    using s1 s2 by (simp add: reclaim_def c ev split: option.split)
  show "fst (reclaim s key m now) = Inr e \<Longrightarrow>
           e = (case store (snd (reclaim s key m now)) key of
                  Some existing \<Rightarrow> GetBytesUsed existing | None \<Rightarrow> 0)"
    by (auto simp: reclaim_def c ev split: option.splits if_splits)
qed

lemma validateKey_None:
  "validateKey key = None \<longleftrightarrow> 1 \<le> length key \<and> length key \<le> MaxKeySizeBytes"
  by (auto simp: validateKey_def Suc_le_eq)

lemma inv_insert:
  assumes "storage_inv s" and "store s key = None" and "entry_ok c" and "Key c = key"
    and "memoryUsedBytes s + GetBytesUsed c \<le> maxMemory s"
  shows "storage_inv (s\<lparr>store := (store s)(key \<mapsto> c),
                        memoryUsedBytes := memoryUsedBytes s + GetBytesUsed c,
                        lru := lru s @ [c]\<rparr>)"
proof -
  have n: "key \<notin> Key ` set (lru s)" using assms(1,2) by (rule inv_absent)
  have st: "\<And>k c'. store s k = Some c' \<longleftrightarrow> (c' \<in> set (lru s) \<and> Key c' = k)"
    using assms(1) by (simp add: storage_inv_def)
  have 1: "distinct (map Key (lru s @ [c]))"
    using assms(1,4) n by (simp add: storage_inv_def)
  have 2: "((store s)(key \<mapsto> c)) k = Some c' \<longleftrightarrow> (c' \<in> set (lru s @ [c]) \<and> Key c' = k)" for k c'
  proof (cases "k = key")
    case True
    have "c' \<notin> set (lru s)" if "Key c' = key" using n that by auto
    then show ?thesis using True assms(4) by auto
  next
    case False
    then show ?thesis using st [of k c'] assms(4) by auto
  qed
  have 3: "memoryUsedBytes s + GetBytesUsed c = sum_list (map GetBytesUsed (lru s @ [c]))"
    using assms(1) by (simp add: storage_inv_def)
  have 5: "\<forall>c' \<in> set (lru s @ [c]). entry_ok c'"
    using assms(1,3) by (simp add: storage_inv_def)
  have 6: "maxMemory s < 2 ^ 63" using assms(1) by (simp add: storage_inv_def)
  define s' where "s' = s\<lparr>store := (store s)(key \<mapsto> c),
                        memoryUsedBytes := memoryUsedBytes s + GetBytesUsed c,
                        lru := lru s @ [c]\<rparr>"
  have p: "lru s' = lru s @ [c]" "store s' = (store s)(key \<mapsto> c)"
    "memoryUsedBytes s' = memoryUsedBytes s + GetBytesUsed c" "maxMemory s' = maxMemory s"
    by (simp_all add: s'_def)
  have "storage_inv s'"
    unfolding storage_inv_def p by (intro conjI allI 1 2 3 assms(5) 5 6)
  then show ?thesis by (simp only: s'_def)
qed

lemma delete_existing:
  assumes "storage_inv s"
    and "e = (case store s key of Some existing \<Rightarrow> GetBytesUsed existing | None \<Rightarrow> 0)"
  shows "storage_inv (if e > 0 then snd (deleteUnlocked s key) else s)"
    and "store (if e > 0 then snd (deleteUnlocked s key) else s) key = None"
    and "maxMemory (if e > 0 then snd (deleteUnlocked s key) else s) = maxMemory s"
proof -
  show "storage_inv (if e > 0 then snd (deleteUnlocked s key) else s)"
  proof (cases "store s key")
    case None
    then show ?thesis using assms by simp
  next
    case (Some c)
    then have "c \<in> set (lru s)" "Key c = key" using inv_member [OF assms(1)] by simp_all
    then show ?thesis using delete_node(1) [OF assms(1), of c] assms(1) by auto
  qed
  show "store (if e > 0 then snd (deleteUnlocked s key) else s) key = None"
  proof (cases "store s key")
    case None
    then show ?thesis using assms by simp
  next
    case (Some c)
    then have c: "c \<in> set (lru s)" "Key c = key" using inv_member [OF assms(1)] by simp_all
    then have "entry_ok c" using assms(1) by (simp add: storage_inv_def)
    then have "0 < e" using entry_ok_pos [of c] assms(2) Some by simp
    then show ?thesis using delete_node(5) [OF assms(1) c(1)] c(2) by simp
  qed
  show "maxMemory (if e > 0 then snd (deleteUnlocked s key) else s) = maxMemory s"
  proof (cases "store s key")
    case None
    then show ?thesis using assms by simp
  next
    case (Some c)
    then have "c \<in> set (lru s)" "Key c = key" using inv_member [OF assms(1)] by simp_all
    then show ?thesis using delete_node(4) [OF assms(1), of c] by auto
  qed
qed

lemma insertNew_inv:
  assumes "storage_inv s" and "validateKey key = None" and "length val < 2 ^ 63"
    and "n = uint64 (length key + length val)" and "n \<le> maxMemory s"
    and "e = (case store s key of Some existing \<Rightarrow> GetBytesUsed existing | None \<Rightarrow> 0)"
  shows "storage_inv (snd (insertNew s key val ttl now n e))"
    and "maxMemory (snd (insertNew s key val ttl now n e)) = maxMemory s"
proof -
  define s1 where "s1 = (if e > 0 then snd (deleteUnlocked s key) else s)"
  define c where "c = \<lparr>Key = key, Value = val, ExpirationTime = now + ttl\<rparr>"
  have i1: "storage_inv s1" and a1: "store s1 key = None" and m1: "maxMemory s1 = maxMemory s"
    using delete_existing [OF assms(1,6)] by (simp_all add: s1_def)
  have ok: "entry_ok c"
    using assms(2,3) by (simp add: entry_ok_def c_def validateKey_None)
  have sz: "GetBytesUsed c = n" by (simp add: GetBytesUsed_def c_def assms(4))
  have kc: "Key c = key" by (simp add: c_def)
  have "memoryUsedBytes s1 < 2 ^ 63" using i1 by (rule inv_mem_bound)
  moreover have "n < 2 ^ 63" using assms(1,5) by (simp add: storage_inv_def)
  ultimately have "memoryUsedBytes s1 + n < 2 ^ 64" by simp
  then have add: "u64_add (memoryUsedBytes s1) n = memoryUsedBytes s1 + n" by (rule u64_add_small)
  have ins: "memoryUsedBytes s1 + n \<le> maxMemory s1 \<Longrightarrow>
             storage_inv (s1\<lparr>store := (store s1)(key \<mapsto> c),
                        memoryUsedBytes := memoryUsedBytes s1 + n,
                        lru := lru s1 @ [c]\<rparr>)"
    using inv_insert [OF i1 a1 ok kc] by (simp add: sz)
  have unf: "insertNew s key val ttl now n e =
        (if memoryUsedBytes s1 + n > maxMemory s1 then (Some ErrMemoryLimitExceeded, s1)
         else (None, s1\<lparr>store := (store s1)(key \<mapsto> c),
                        memoryUsedBytes := memoryUsedBytes s1 + n,
                        lru := lru s1 @ [c]\<rparr>))"
    using add sz by (simp add: insertNew_def Let_def s1_def [symmetric] c_def [symmetric] lru_append_def)
  show "storage_inv (snd (insertNew s key val ttl now n e))"
    using i1 ins by (simp add: unf)
  show "maxMemory (snd (insertNew s key val ttl now n e)) = maxMemory s"
    using m1 by (simp add: unf)
qed

lemma Put_inv:
  assumes "storage_inv s" and "length val < 2 ^ 63"
  shows "storage_inv (snd (Put s key val ttl now))"
    and "maxMemory (snd (Put s key val ttl now)) = maxMemory s"
proof -
  define n where "n = uint64 (length key + length val)"
  define e where "e = (case store s key of Some existing \<Rightarrow> GetBytesUsed existing | None \<Rightarrow> 0)"
  define m where "m = (if n > e then u64_sub n e else 0)"
  have both: "storage_inv (snd (Put s key val ttl now)) \<and>
              maxMemory (snd (Put s key val ttl now)) = maxMemory s"
  proof (cases "validateKey key = None \<and> 0 < ttl \<and> val \<noteq> [] \<and> n \<le> maxMemory s")
    case False
    then show ?thesis using assms(1) by (auto simp: Put_def Let_def n_def split: option.splits)
  next
    case True
    show ?thesis
    proof (cases "u64_add (memoryUsedBytes s) m > maxMemory s")
      case False
      then have "Put s key val ttl now = insertNew s key val ttl now n e"
        using True by (simp add: Put_def Let_def n_def [symmetric] e_def [symmetric] m_def [symmetric])
      then show ?thesis
        using insertNew_inv [OF assms(1) _ assms(2) n_def _ e_def, where ttl = ttl and now = now] True by simp
    next
      case over: True
      obtain r s' where r: "reclaim s key m now = (r, s')" by (cases "reclaim s key m now")
      have i': "storage_inv s'" and m': "maxMemory s' = maxMemory s"
        using reclaim_inv(1,2) [OF assms(1), of key m now] r by simp_all
      show ?thesis
      proof (cases r)
        case (Inl err)
        then have "Put s key val ttl now = (Some err, s')"
          using True over r
          by (simp add: Put_def Let_def n_def [symmetric] e_def [symmetric] m_def [symmetric])
        then show ?thesis using i' m' by simp
      next
        case (Inr e')
        then have p: "Put s key val ttl now = insertNew s' key val ttl now n e'"
          using True over r
          by (simp add: Put_def Let_def n_def [symmetric] e_def [symmetric] m_def [symmetric])
        have e': "e' = (case store s' key of Some existing \<Rightarrow> GetBytesUsed existing | None \<Rightarrow> 0)"
          using reclaim_inv(3) [OF assms(1), of key m now e'] r Inr by simp
        show ?thesis
          using insertNew_inv [OF i' _ assms(2) n_def _ e', where ttl = ttl and now = now] True m' by (simp add: p)
      qed
    qed
  qed
  then show "storage_inv (snd (Put s key val ttl now))"
    and "maxMemory (snd (Put s key val ttl now)) = maxMemory s" by simp_all
qed

lemma moveToTail_set: "distinct l \<Longrightarrow> nd \<in> set l \<Longrightarrow> set (moveToTail l nd) = set l"
  by (auto simp: moveToTail_def lru_append_def lru_remove_def)

lemma moveToTail_distinct:
  assumes "distinct (map f l)" and "nd \<in> set l"
  shows "distinct (map f (moveToTail l nd))"
proof -
  have dl: "distinct l" and inj: "inj_on f (set l)" using assms(1) by (simp_all add: distinct_map)
  have "f nd \<notin> f ` set (remove1 nd l)"
  proof
    assume "f nd \<in> f ` set (remove1 nd l)"
    then obtain y where y: "y \<in> set (remove1 nd l)" "f y = f nd" by auto
    then have "y \<in> set l" "y \<noteq> nd" using dl by simp_all
    then show False using inj y(2) assms(2) by (auto dest: inj_onD)
  qed
  then show ?thesis
    using assms(1) by (simp add: moveToTail_def lru_append_def lru_remove_def distinct_map_remove1)
qed

lemma moveToTail_sum:
  assumes "nd \<in> set l"
  shows "sum_list (map f (moveToTail l nd)) = (sum_list (map f l) :: nat)"
  using assms sum_list_member_le [of nd l f]
  by (simp add: moveToTail_def lru_append_def lru_remove_def sum_list_remove1_nat)

lemma inv_moveToTail:
  assumes "storage_inv s" and "nd \<in> set (lru s)"
  shows "storage_inv (s\<lparr>lru := moveToTail (lru s) nd\<rparr>)"
proof -
  define s' where "s' = s\<lparr>lru := moveToTail (lru s) nd\<rparr>"
  have p: "lru s' = moveToTail (lru s) nd" "store s' = store s"
    "memoryUsedBytes s' = memoryUsedBytes s" "maxMemory s' = maxMemory s"
    by (simp_all add: s'_def)
  have dl: "distinct (lru s)" using assms(1) by (simp add: storage_inv_def distinct_map)
  have "storage_inv s'"
    using assms(1)
    unfolding storage_inv_def p moveToTail_set [OF dl assms(2)] moveToTail_sum [OF assms(2)]
    by (simp add: moveToTail_distinct [OF _ assms(2)])
  then show ?thesis by (simp only: s'_def)
qed

lemma Get_inv:
  assumes "storage_inv s"
  shows "storage_inv (snd (Get s key now))" and "maxMemory (snd (Get s key now)) = maxMemory s"
proof -
  have "storage_inv (snd (Get s key now)) \<and> maxMemory (snd (Get s key now)) = maxMemory s"
  proof (cases "store s key")
    case None
    then show ?thesis using assms by (simp add: Get_def split: option.split)
  next
    case (Some nd)
    then have n: "nd \<in> set (lru s)" "Key nd = key" using inv_member [OF assms] by simp_all
    show ?thesis
      using Some assms n delete_node(1,4) [OF assms n(1)] inv_moveToTail [OF assms n(1)]
      by (simp add: Get_def split: option.split)
  qed
  then show "storage_inv (snd (Get s key now))" and "maxMemory (snd (Get s key now)) = maxMemory s"
    by simp_all
qed

lemma Delete_inv:
  assumes "storage_inv s"
  shows "storage_inv (snd (Delete s key))" and "maxMemory (snd (Delete s key)) = maxMemory s"
proof -
  have "storage_inv (snd (Delete s key)) \<and> maxMemory (snd (Delete s key)) = maxMemory s"
  proof (cases "store s key")
    case None
    then show ?thesis using assms by (simp add: Delete_def deleteUnlocked_absent split: option.split)
  next
    case (Some nd)
    then have n: "nd \<in> set (lru s)" "Key nd = key" using inv_member [OF assms] by simp_all
    show ?thesis
      using assms n delete_node(1,4) [OF assms n(1)]
      by (simp add: Delete_def split: option.split)
  qed
  then show "storage_inv (snd (Delete s key))" and "maxMemory (snd (Delete s key)) = maxMemory s"
    by simp_all
qed

lemma New_inv: "cap < 2 ^ 63 \<Longrightarrow> storage_inv (NewInMemoryStorage cap)"
  by (simp add: storage_inv_def NewInMemoryStorage_def)

lemma step_inv:
  assumes "storage_inv s" and "slice_ok (fst p)"
  shows "storage_inv (step s p) \<and> maxMemory (step s p) = maxMemory s"
proof (cases p)
  case (Pair op now)
  show ?thesis
  proof (cases op)
    case (OpGet key)
    then show ?thesis using Pair Get_inv [OF assms(1)] by simp
  next
    case (OpPut key val ttl)
    then have "length val < 2 ^ 63" using assms(2) Pair by (simp add: slice_ok_def)
    then show ?thesis using Pair OpPut Put_inv [OF assms(1)] by simp
  next
    case (OpDelete key)
    then show ?thesis using Pair Delete_inv [OF assms(1)] by simp
  qed
qed

lemma run_inv:
  "storage_inv s \<Longrightarrow> \<forall>p \<in> set ops. slice_ok (fst p) \<Longrightarrow>
   storage_inv (run s ops) \<and> maxMemory (run s ops) = maxMemory s"
proof (induction ops arbitrary: s)
  case Nil
  then show ?case by (simp add: run_def)
next
  case (Cons p ops)
  have 1: "storage_inv (step s p) \<and> maxMemory (step s p) = maxMemory s"
    using Cons.prems by (simp add: step_inv)
  have "storage_inv (run (step s p) ops) \<and> maxMemory (run (step s p) ops) = maxMemory (step s p)"
    using Cons.IH [of "step s p"] 1 Cons.prems(2) by simp
  then show ?case using 1 by (simp add: run_def)
qed

lemma inv_dom: "storage_inv s \<Longrightarrow> dom (store s) = Key ` set (lru s)"
  by (auto simp: storage_inv_def dom_def image_iff)

lemma inv_sum_dom:
  assumes "storage_inv s"
  shows "(\<Sum>k \<in> dom (store s). g (the (store s k))) = sum_list (map g (lru s))"
proof -
  have d: "distinct (lru s)" and inj: "inj_on Key (set (lru s))"
    using assms by (simp_all add: storage_inv_def distinct_map)
  have "(\<Sum>k \<in> dom (store s). g (the (store s k))) =
        (\<Sum>k \<in> Key ` set (lru s). g (the (store s k)))"
    by (simp add: inv_dom [OF assms])
  also have "\<dots> = (\<Sum>c \<in> set (lru s). g (the (store s (Key c))))"
    using inj by (simp add: sum.reindex)
  also have "\<dots> = (\<Sum>c \<in> set (lru s). g c)"
    by (rule sum.cong) (simp_all add: inv_lookup [OF assms])
  also have "\<dots> = sum_list (map g (lru s))"
    using d by (simp add: sum_list_distinct_conv_sum_set)
  finally show ?thesis .
qed

lemma inv_accounting:
  assumes "storage_inv s"
  shows "memoryUsedBytes s = (\<Sum>k \<in> dom (store s). length k + length (Value (the (store s k))))"
proof -
  have "(\<Sum>k \<in> dom (store s). length k + length (Value (the (store s k)))) =
        (\<Sum>k \<in> dom (store s). GetBytesUsed (the (store s k)))"
  proof (rule sum.cong)
    fix k assume "k \<in> dom (store s)"
    then obtain c where c: "store s k = Some c" by auto
    then have "c \<in> set (lru s)" "Key c = k" using inv_member [OF assms] by simp_all
    moreover have "entry_ok c" using assms calculation(1) by (simp add: storage_inv_def)
    ultimately show "length k + length (Value (the (store s k))) = GetBytesUsed (the (store s k))"
      using c by (simp add: entry_ok_size)
  qed simp
  also have "\<dots> = sum_list (map GetBytesUsed (lru s))" using assms by (rule inv_sum_dom)
  finally show ?thesis using assms by (simp add: storage_inv_def)
qed

lemma dom_only_key_mem:
  assumes "storage_inv s" and "dom (store s) \<subseteq> {key}"
  shows "memoryUsedBytes s =
           (case store s key of Some existing \<Rightarrow> GetBytesUsed existing | None \<Rightarrow> 0)"
proof -
  have m: "memoryUsedBytes s = (\<Sum>k \<in> dom (store s). GetBytesUsed (the (store s k)))"
    using assms(1) inv_sum_dom [OF assms(1), of GetBytesUsed] by (simp add: storage_inv_def)
  show ?thesis
  proof (cases "store s key")
    case None
    then have "dom (store s) = {}" using assms(2) by auto
    then show ?thesis using m None by simp
  next
    case (Some c)
    then have "dom (store s) = {key}" using assms(2) by auto
    then show ?thesis using m Some by simp
  qed
qed

lemma delete_existing_mem:
  assumes "storage_inv s"
    and "e = (case store s key of Some existing \<Rightarrow> GetBytesUsed existing | None \<Rightarrow> 0)"
  shows "memoryUsedBytes (if e > 0 then snd (deleteUnlocked s key) else s) = memoryUsedBytes s - e"
proof (cases "store s key")
  case None
  then show ?thesis using assms by simp
next
  case (Some c)
  then have c: "c \<in> set (lru s)" "Key c = key" using inv_member [OF assms(1)] by simp_all
  then have "entry_ok c" using assms(1) by (simp add: storage_inv_def)
  then have "0 < e" using entry_ok_pos [of c] assms(2) Some by simp
  then show ?thesis using delete_node(3) [OF assms(1) c(1)] c(2) assms(2) Some by simp
qed

lemma insertNew_fits:
  assumes "storage_inv s" and "n = uint64 (length key + length val)" and "n \<le> maxMemory s"
    and "e = (case store s key of Some existing \<Rightarrow> GetBytesUsed existing | None \<Rightarrow> 0)"
    and "memoryUsedBytes s - e + n \<le> maxMemory s"
  shows "fst (insertNew s key val ttl now n e) = None"
    and "store (snd (insertNew s key val ttl now n e)) key =
           Some \<lparr>Key = key, Value = val, ExpirationTime = now + ttl\<rparr>"
    and "memoryUsedBytes (snd (insertNew s key val ttl now n e)) = memoryUsedBytes s - e + n"
proof -
  define s1 where "s1 = (if e > 0 then snd (deleteUnlocked s key) else s)"
  have m1: "maxMemory s1 = maxMemory s" and u1: "memoryUsedBytes s1 = memoryUsedBytes s - e"
    using delete_existing(3) [OF assms(1,4)] delete_existing_mem [OF assms(1,4)]
    by (simp_all add: s1_def)
  have "memoryUsedBytes s1 + n < 2 ^ 64"
    using assms(1,5) u1 by (simp add: storage_inv_def)
  then have add: "u64_add (memoryUsedBytes s1) n = memoryUsedBytes s1 + n" by (rule u64_add_small)
  have sz: "GetBytesUsed \<lparr>Key = key, Value = val, ExpirationTime = now + ttl\<rparr> = n"
    by (simp add: GetBytesUsed_def assms(2))
  have unf: "insertNew s key val ttl now n e =
        (None, s1\<lparr>store := (store s1)(key \<mapsto> \<lparr>Key = key, Value = val, ExpirationTime = now + ttl\<rparr>),
                        memoryUsedBytes := memoryUsedBytes s1 + n,
                        lru := lru s1 @ [\<lparr>Key = key, Value = val, ExpirationTime = now + ttl\<rparr>]\<rparr>)"
    using add sz assms(5) m1 u1
    by (simp add: insertNew_def Let_def s1_def [symmetric] lru_append_def)
  show "fst (insertNew s key val ttl now n e) = None" by (simp add: unf)
  show "store (snd (insertNew s key val ttl now n e)) key =
           Some \<lparr>Key = key, Value = val, ExpirationTime = now + ttl\<rparr>" by (simp add: unf)
  show "memoryUsedBytes (snd (insertNew s key val ttl now n e)) = memoryUsedBytes s - e + n"
    by (simp add: unf u1)
qed

section \<open>The example stores, step by step\<close>

lemma hour_simps [simp]: "0 < hour" "\<not> hour \<le> 0" "\<not> hour < 1"
  by (simp_all add: hour_def)

lemma obj_simps [simp]:
  "Key obj_a = ''a''" "Value obj_a = ''11111''" "ExpirationTime obj_a = hour" "GetBytesUsed obj_a = 6"
  "Key obj_b = ''b''" "Value obj_b = ''22222''" "ExpirationTime obj_b = hour" "GetBytesUsed obj_b = 6"
  "obj_a \<noteq> obj_b" "obj_b \<noteq> obj_a"
  by (simp_all add: obj_a_def obj_b_def GetBytesUsed_def uint64_def)

lemma store_b_simps [simp]:
  "memoryUsedBytes store_b = 6" "maxMemory store_b = 20"
  "store store_b = [''b'' \<mapsto> obj_b]" "lru store_b = [obj_b]"
  by (simp_all add: store_b_def)

lemma store_ab_simps [simp]:
  "memoryUsedBytes store_ab = 12" "maxMemory store_ab = 12"
  "store store_ab = [''a'' \<mapsto> obj_a, ''b'' \<mapsto> obj_b]" "lru store_ab = [obj_a, obj_b]"
  by (simp_all add: store_ab_def)

lemma store_b_reachable:
  "run (NewInMemoryStorage 20) [(OpPut ''b'' ''22222'' hour, 0)] = store_b"
  by (simp add: run_def Put_def validateKey_def MaxKeySizeBytes_def NewInMemoryStorage_def
      uint64_def u64_add_def u64_sub_def insertNew_def GetBytesUsed_def Let_def lru_append_def
      store_b_def obj_b_def)

lemma store_a_step:
  "Put (NewInMemoryStorage 12) ''a'' ''11111'' hour 0 =
     (None, \<lparr>memoryUsedBytes = 6, maxMemory = 12, store = [''a'' \<mapsto> obj_a], lru = [obj_a]\<rparr>)"
  by (simp add: Put_def validateKey_def MaxKeySizeBytes_def NewInMemoryStorage_def
      uint64_def u64_add_def u64_sub_def insertNew_def GetBytesUsed_def Let_def lru_append_def
      obj_a_def)

lemma store_ab_step:
  "Put \<lparr>memoryUsedBytes = 6, maxMemory = 12, store = [''a'' \<mapsto> obj_a], lru = [obj_a]\<rparr>
       ''b'' ''22222'' hour 0 = (None, store_ab)"
  by (simp add: Put_def validateKey_def MaxKeySizeBytes_def
      uint64_def u64_add_def u64_sub_def insertNew_def GetBytesUsed_def Let_def lru_append_def
      store_ab_def obj_b_def)

lemma store_ab_reachable:
  "run (NewInMemoryStorage 12) [(OpPut ''a'' ''11111'' hour, 0), (OpPut ''b'' ''22222'' hour, 0)] = store_ab"
  by (simp add: run_def store_a_step store_ab_step)

lemma delete_b_store_b: "snd (deleteUnlocked store_b ''b'') = NewInMemoryStorage 20"
  by (simp add: deleteUnlocked_def lru_remove_def u64_sub_def)
     (simp add: store_b_def NewInMemoryStorage_def)

lemma cleanup_store_b: "limitedTtlCleanup store_b 20 1 = (0, store_b)"
  by (simp add: limitedTtlCleanup_def)

lemma eviction_store_b: "limitedEviction store_b 20 = (6, NewInMemoryStorage 20)"
  by (simp add: limitedEviction_def u64_add_def delete_b_store_b)

lemma reclaim_store_b: "reclaim store_b ''a'' 20 1 = (Inl ErrMemoryLimitExceeded, NewInMemoryStorage 20)"
  by (simp add: reclaim_def cleanup_store_b eviction_store_b u64_add_def u64_sub_def)

lemma Put_store_b:
  "Put store_b ''a'' ''1234567890123456789'' hour 1 = (Some ErrMemoryLimitExceeded, NewInMemoryStorage 20)"
  by (simp add: Put_def validateKey_def MaxKeySizeBytes_def uint64_def u64_add_def u64_sub_def
      Let_def reclaim_store_b)

lemma delete_a_store_ab: "snd (deleteUnlocked store_ab ''a'') = store_ab_less_a"
  by (simp add: deleteUnlocked_def lru_remove_def u64_sub_def)
     (simp add: store_ab_def store_ab_less_a_def fun_upd_twist)

lemma cleanup_store_ab: "limitedTtlCleanup store_ab 2 1 = (0, store_ab)"
  by (simp add: limitedTtlCleanup_def)

lemma eviction_store_ab: "limitedEviction store_ab 2 = (6, store_ab_less_a)"
  by (simp add: limitedEviction_def u64_add_def delete_a_store_ab)

lemma reclaim_store_ab: "reclaim store_ab ''a'' 2 1 = (Inr 0, store_ab_less_a)"
  by (simp add: reclaim_def cleanup_store_ab eviction_store_ab u64_add_def u64_sub_def)
     (simp add: store_ab_less_a_def)

lemma insertNew_store_ab_less_a:
  "insertNew store_ab_less_a ''a'' ''1234567'' hour 1 8 0 = (Some ErrMemoryLimitExceeded, store_ab_less_a)"
  by (simp add: insertNew_def u64_add_def Let_def) (simp add: store_ab_less_a_def)

lemma Put_store_ab:
  "Put store_ab ''a'' ''1234567'' hour 1 = (Some ErrMemoryLimitExceeded, store_ab_less_a)"
  by (simp add: Put_def validateKey_def MaxKeySizeBytes_def uint64_def u64_add_def u64_sub_def
      Let_def reclaim_store_ab insertNew_store_ab_less_a)

section \<open>Rounding to float64\<close>

text \<open>
  What the proofs need of \<open>float64\<close>: the exponent found is the true one, an
  integer below \<open>2 ^ 53\<close> in magnitude is its own rounding, rounding does not cross an
  integer on the way down, and it adds at most half of the last bit on the way up.
\<close>

lemma exponent_le:
  assumes "x \<noteq> 0"
  shows "2 powi exponent x \<le> \<bar>x\<bar>"
proof -
  obtain p q where pq: "quotient_of \<bar>x\<bar> = (p, q)" by (cases "quotient_of \<bar>x\<bar>")
  have q: "0 < q" using quotient_of_denom_pos [OF pq] .
  have x: "\<bar>x\<bar> = of_int p / of_int q" using quotient_of_div [OF pq] .
  have "0 < \<bar>x\<bar>" using assms by simp
  then have p: "0 < p" using q x by (simp add: zero_less_divide_iff)
  define e where "e = bitlen p - bitlen q"
  have ex: "exponent x = (if 2 powi e \<le> \<bar>x\<bar> then e else e - 1)"
    by (simp add: exponent_def pq e_def)
  have bp: "2 ^ nat (bitlen p - 1) \<le> p" using bitlen_bounds [OF p] by simp
  have bq: "q < 2 ^ nat (bitlen q)" using bitlen_bounds [OF q] by simp
  have lp: "1 \<le> bitlen p" using p bitlen_eq_zero_iff [of p] bitlen_nonneg [of p] by linarith
  have lq: "0 \<le> bitlen q" by (rule bitlen_nonneg)
  have 1: "(2::rat) powi (bitlen p - 1) \<le> of_int p"
  proof -
    have "(2::rat) powi (bitlen p - 1) = of_int (2 ^ nat (bitlen p - 1))"
      using lp by (simp add: power_int_def)
    also have "\<dots> \<le> of_int p" using bp by (simp only: of_int_le_iff)
    finally show ?thesis .
  qed
  have 2: "(of_int q :: rat) \<le> 2 powi bitlen q"
  proof -
    have "(of_int q :: rat) \<le> of_int (2 ^ nat (bitlen q))" using bq by (simp only: of_int_le_iff)
    also have "\<dots> = 2 powi bitlen q" using lq by (simp add: power_int_def)
    finally show ?thesis .
  qed
  have "(2::rat) powi (e - 1) = 2 powi (bitlen p - 1) / 2 powi bitlen q"
    by (simp add: e_def power_int_diff)
  also have "\<dots> \<le> of_int p / of_int q"
    using 1 2 q p by (intro frac_le) simp_all
  finally have "(2::rat) powi (e - 1) \<le> \<bar>x\<bar>" using x by simp
  then show ?thesis by (simp add: ex)
qed

lemma exponent_gt:
  assumes "x \<noteq> 0"
  shows "\<bar>x\<bar> < 2 powi (exponent x + 1)"
proof -
  obtain p q where pq: "quotient_of \<bar>x\<bar> = (p, q)" by (cases "quotient_of \<bar>x\<bar>")
  have q: "0 < q" using quotient_of_denom_pos [OF pq] .
  have x: "\<bar>x\<bar> = of_int p / of_int q" using quotient_of_div [OF pq] .
  have "0 < \<bar>x\<bar>" using assms by simp
  then have p: "0 < p" using q x by (simp add: zero_less_divide_iff)
  define e where "e = bitlen p - bitlen q"
  have ex: "exponent x = (if 2 powi e \<le> \<bar>x\<bar> then e else e - 1)"
    by (simp add: exponent_def pq e_def)
  have bp: "p < 2 ^ nat (bitlen p)" using bitlen_bounds [OF p] by simp
  have bq: "2 ^ nat (bitlen q - 1) \<le> q" using bitlen_bounds [OF q] by simp
  have lp: "0 \<le> bitlen p" by (rule bitlen_nonneg)
  have lq: "1 \<le> bitlen q" using q bitlen_eq_zero_iff [of q] bitlen_nonneg [of q] by linarith
  have 1: "of_int p < (2::rat) powi bitlen p"
  proof -
    have "(of_int p :: rat) < of_int (2 ^ nat (bitlen p))" using bp by (simp only: of_int_less_iff)
    also have "\<dots> = 2 powi bitlen p" using lp by (simp add: power_int_def)
    finally show ?thesis .
  qed
  have 2: "(2::rat) powi (bitlen q - 1) \<le> of_int q"
  proof -
    have "(2::rat) powi (bitlen q - 1) = of_int (2 ^ nat (bitlen q - 1))"
      using lq by (simp add: power_int_def)
    also have "\<dots> \<le> of_int q" using bq by (simp only: of_int_le_iff)
    finally show ?thesis .
  qed
  have "(of_int p :: rat) / of_int q < 2 powi bitlen p / 2 powi (bitlen q - 1)"
    using 1 2 q p by (intro frac_less) simp_all
  also have "\<dots> = 2 powi (e + 1)"
    by (simp add: e_def power_int_diff power_int_add)
  finally have "\<bar>x\<bar> < 2 powi (e + 1)" using x by simp
  then show ?thesis by (auto simp add: ex)
qed

lemma exponent_less:
  assumes "x \<noteq> 0" and "\<bar>x\<bar> < 2 powi n"
  shows "exponent x < n"
proof -
  have l: "(2::rat) powi exponent x < 2 powi n" using exponent_le [OF assms(1)] assms(2) by simp
  show ?thesis
  proof (rule ccontr)
    assume "\<not> exponent x < n"
    then have "(2::rat) powi n \<le> 2 powi exponent x" by (intro power_int_increasing) simp_all
    then show False using l by simp
  qed
qed

lemma round_half_even_of_int: "round_half_even (of_int n) = n"
  by (simp add: round_half_even_def)

lemma round_half_even_ge:
  assumes "of_int n \<le> x"
  shows "n \<le> round_half_even x"
proof -
  have "n \<le> \<lfloor>x\<rfloor>" using assms by (simp add: le_floor_iff)
  then show ?thesis by (simp add: round_half_even_def Let_def)
qed

lemma round_half_even_le: "of_int (round_half_even x) \<le> x + 1 / 2"
proof -
  have "of_int \<lfloor>x\<rfloor> \<le> x" by (rule of_int_floor_le)
  then have 1: "of_int \<lfloor>x\<rfloor> \<le> x + 1 / 2" by linarith
  have 2: "of_int (\<lfloor>x\<rfloor> + 1) \<le> x + 1 / 2" if "1 / 2 \<le> x - of_int \<lfloor>x\<rfloor>"
    using that by simp
  show ?thesis
    unfolding round_half_even_def Let_def using 1 2 by (simp only: split: if_split) force
qed

lemma float64_ge_int:
  assumes "of_int m \<le> x" and "0 < x" and "x < 2 powi 53"
  shows "of_int m \<le> float64 x"
proof -
  define k where "k = max (exponent x - 52) (- 1074)"
  have "exponent x < 53" using assms(2,3) by (intro exponent_less) simp_all
  then have k: "k \<le> 0" by (simp add: k_def)
  have p: "(0::rat) < 2 powi k" by simp
  have d: "(of_int m :: rat) / 2 powi k = of_int (m * 2 ^ nat (- k))"
    using k by (simp add: power_int_def field_simps)
  have "(of_int m :: rat) / 2 powi k \<le> x / 2 powi k"
    using assms(1) p by (intro divide_right_mono) simp_all
  then have "of_int (m * 2 ^ nat (- k)) \<le> x / 2 powi k" by (simp only: d)
  then have "m * 2 ^ nat (- k) \<le> round_half_even (x / 2 powi k)" by (rule round_half_even_ge)
  then have "(of_int (m * 2 ^ nat (- k)) :: rat) \<le> of_int (round_half_even (x / 2 powi k))"
    by (simp only: of_int_le_iff)
  then have "of_int (m * 2 ^ nat (- k)) * (2::rat) powi k
               \<le> of_int (round_half_even (x / 2 powi k)) * 2 powi k"
    using p by (intro mult_right_mono) simp_all
  then have "of_int m \<le> of_int (round_half_even (x / 2 powi k)) * (2::rat) powi k"
    by (simp only: d [symmetric]) simp
  moreover have "float64 x = of_int (round_half_even (x / 2 powi k)) * 2 powi k"
    using assms(2) by (simp add: float64_def k_def Let_def)
  ultimately show ?thesis by (simp only:)
qed

lemma float64_le:
  assumes "0 < x" and "x < 2 powi n" and "- 1021 \<le> n"
  shows "float64 x \<le> x + 2 powi (n - 54)"
proof -
  define k where "k = max (exponent x - 52) (- 1074)"
  have "exponent x < n" using assms(1,2) by (intro exponent_less) simp_all
  then have k: "k \<le> n - 53" using assms(3) by (simp add: k_def)
  have p: "(0::rat) < 2 powi k" by simp
  have "of_int (round_half_even (x / 2 powi k)) \<le> x / 2 powi k + 1 / 2"
    by (rule round_half_even_le)
  then have "of_int (round_half_even (x / 2 powi k)) * 2 powi k \<le> (x / 2 powi k + 1 / 2) * 2 powi k"
    using p by (intro mult_right_mono) simp_all
  also have "\<dots> = x + 2 powi k / 2" by (simp add: field_simps)
  also have "\<dots> = x + 2 powi (k - 1)" by (simp add: power_int_diff)
  also have "\<dots> \<le> x + 2 powi (n - 54)" using k by (simp add: power_int_increasing)
  finally show ?thesis using assms(1) by (simp add: float64_def k_def Let_def)
qed

lemma float64_of_int:
  assumes "\<bar>m\<bar> < 2 ^ 53"
  shows "float64 (of_int m) = of_int m"
proof (cases "m = 0")
  case True
  then show ?thesis by (simp add: float64_def)
next
  case False
  define k where "k = max (exponent (of_int m) - 52) (- 1074)"
  have "\<bar>of_int m :: rat\<bar> < 2 powi 53"
  proof -
    have "\<bar>of_int m :: rat\<bar> = of_int \<bar>m\<bar>" by simp
    also have "\<dots> < of_int (2 ^ 53)" using assms by (simp only: of_int_less_iff)
    finally show ?thesis by simp
  qed
  then have "exponent (of_int m) < 53" using False by (intro exponent_less) simp_all
  then have k: "k \<le> 0" by (simp add: k_def)
  have m: "(of_int m :: rat) / 2 powi k = of_int (m * 2 ^ nat (- k))"
    using k by (simp add: power_int_def field_simps)
  have "of_int (round_half_even (of_int m / 2 powi k)) * 2 powi k = (of_int m :: rat)"
    by (simp only: m round_half_even_of_int) (use k in \<open>simp add: power_int_def field_simps\<close>)
  then show ?thesis using False by (simp add: float64_def k_def Let_def)
qed


lemma quo_nonneg: "0 \<le> a \<Longrightarrow> 0 < b \<Longrightarrow> quo a b = a div b"
  by (simp add: quo_def)

lemma rem_nonneg: "0 \<le> a \<Longrightarrow> 0 < b \<Longrightarrow> rem a b = a mod b"
  by (simp add: rem_def quo_nonneg minus_mult_div_eq_mod)

lemma float64_fraction:
  assumes "0 \<le> nsec" and "nsec < 1000000000"
  shows "0 \<le> float64 (of_int nsec / 1000000000) \<and>
         float64 (of_int nsec / 1000000000) \<le> 999999999 / 1000000000 + 2 powi (- 54)"
proof (cases "nsec = 0")
  case True
  then show ?thesis by (simp add: float64_def)
next
  case False
  define x :: rat where "x = of_int nsec / 1000000000"
  have "(of_int nsec :: rat) \<le> of_int 999999999" using assms(2) by simp
  then have u: "x \<le> 999999999 / 1000000000" by (simp add: x_def)
  have "(of_int 0 :: rat) < of_int nsec" using assms(1) False by simp
  then have l: "0 < x" by (simp add: x_def)
  have "x < 2 powi 0" using u by simp
  then have "float64 x \<le> x + 2 powi (0 - 54)" using l by (intro float64_le) simp_all
  then have 1: "float64 x \<le> 999999999 / 1000000000 + 2 powi (- 54)" using u by simp
  have "x < 2 powi 53" using u by simp
  then have "of_int 0 \<le> float64 x" using l by (intro float64_ge_int) simp_all
  then show ?thesis using 1 by (simp add: x_def)
qed

text \<open>
  Below \<open>2 ^ 24\<close> seconds the last bit of the sum weighs at most \<open>2 ^ - 29\<close>, and half of it
  is less than the nanosecond that separates the exact value from the next second:
  \<open>int(d.Seconds())\<close> is the whole number of seconds.  From \<open>2 ^ 24\<close> seconds on the sum
  can round up to the next second.
\<close>

lemma int_Seconds:
  assumes "0 \<le> d" and "d < 16777216 * Second"
  shows "int_of_float64 (Seconds d) = d div Second"
proof -
  define sec where "sec = d div Second"
  define nsec where "nsec = d mod Second"
  define q where "q = float64 (of_int nsec / 1000000000)"
  define y where "y = of_int sec + q"
  have s: "0 \<le> sec" "sec < 16777216" using assms by (simp_all add: sec_def Second_def)
  have n: "0 \<le> nsec" "nsec < 1000000000" by (simp_all add: nsec_def Second_def)
  have f1: "float64 (of_int sec) = of_int sec" using s by (intro float64_of_int) simp
  have f2: "float64 (of_int nsec) = of_int nsec" using n by (intro float64_of_int) simp
  have S: "Seconds d = float64 y"
    using assms(1)
    by (simp add: Seconds_def quo_nonneg rem_nonneg Second_def f1 f2 y_def q_def
        sec_def [unfolded Second_def, symmetric] nsec_def [unfolded Second_def, symmetric])
  have q: "0 \<le> q" "q \<le> 999999999 / 1000000000 + 2 powi (- 54)"
    using float64_fraction [OF n] by (simp_all add: q_def)
  have "(of_int sec :: rat) \<le> of_int 16777215" using s(2) by simp
  then have s': "(of_int sec :: rat) \<le> 16777215" by simp
  have s0: "(0::rat) \<le> of_int sec" using s(1) by simp
  have b: "of_int sec \<le> float64 y \<and> float64 y < of_int sec + 1"
  proof (cases "y = 0")
    case True
    then have "of_int sec = (0::rat)" using q(1) s0 by (simp add: y_def)
    then show ?thesis using True by (simp add: float64_def)
  next
    case False
    then have y0: "0 < y" using q(1) s0 by (simp add: y_def)
    have y1: "y < 16777216" using s' q(2) by (simp add: y_def power_int_minus)
    have "y < 2 powi 53" using y1 by simp
    then have l: "of_int sec \<le> float64 y" using y0 q(1) by (intro float64_ge_int) (simp_all add: y_def)
    have "y < 2 powi 24" using y1 by simp
    then have "float64 y \<le> y + 2 powi (24 - 54)" using y0 by (intro float64_le) simp_all
    then have "float64 y < of_int sec + 1" using q(2) by (simp add: y_def power_int_minus)
    then show ?thesis using l by simp
  qed
  then have "\<lfloor>float64 y\<rfloor> = sec" by (simp add: floor_unique)
  moreover have "\<not> float64 y < 0" using b s0 by simp
  ultimately show ?thesis by (simp add: int_of_float64_def S sec_def)
qed

lemma Seconds_rounds_up:
  "int_of_float64 (Seconds 16777216999999999) = 16777217 \<and>
   16777216999999999 div Second = 16777216"
  by code_simp

section \<open>The handlers\<close>

lemma Get_maxMemory: "maxMemory (snd (Get s key now)) = maxMemory s"
  by (simp add: Get_def deleteUnlocked_def split: option.split)

lemma GetEntry_snd: "snd (GetEntry s key now) = snd (Get s key now)"
  by (simp add: GetEntry_def split: prod.split sum.split)

lemma GetEntry_miss: "fst (GetEntry s key now) = Inl err \<longleftrightarrow> fst (Get s key now) = Inl err"
  by (auto simp: GetEntry_def split: prod.splits sum.splits)

lemma Get_miss_again:
  assumes "storage_inv s" and "fst (Get s key now) = Inl ErrKeyNotFound"
  shows "fst (Get (snd (Get s key now)) key now') = Inl ErrKeyNotFound"
proof -
  have v: "validateKey key = None"
    using assms(2) by (auto simp: Get_def validateKey_def split: option.splits if_splits)
  show ?thesis
  proof (cases "store s key")
    case None
    then show ?thesis using v by (simp add: Get_def)
  next
    case (Some c)
    then have e: "ExpirationTime c < now"
      using assms(2) v by (auto simp: Get_def split: if_splits)
    have "store (snd (Get s key now)) key = None"
      using v Some e deleteUnlocked_present [OF assms(1) Some] by (simp add: Get_def)
    then show ?thesis using v by (simp add: Get_def)
  qed
qed

lemma postHeadersPass_cong:
  "maxMemory s' = maxMemory s \<Longrightarrow> postHeadersPass s' r key = postHeadersPass s r key"
  by (simp add: postHeadersPass_def CanFit_def split: header_int.split)

lemma handlePost_to_postPromise:
  assumes "fst (GetEntry (storage srv) key now) = Inl ErrKeyNotFound"
    and "postHeadersPass (storage srv) r key"
  shows "handlePost srv r key now =
           postPromise (srv\<lparr>storage := snd (Get (storage srv) key now)\<rparr>) r key now
             (case sizeHeader r of HeaderInt valueSize \<Rightarrow> valueSize | _ \<Rightarrow> - 1)
             (requestedPromiseTTL r)"
proof -
  obtain st where g: "GetEntry (storage srv) key now = (Inl ErrKeyNotFound, st)"
    using assms(1) by (cases "GetEntry (storage srv) key now") simp
  have st: "st = snd (Get (storage srv) key now)"
    using g GetEntry_snd [of "storage srv" key now] by simp
  have m: "maxMemory st = maxMemory (storage srv)" by (simp add: st Get_maxMemory)
  have t: "postPromiseTTL (srv\<lparr>storage := st\<rparr>) r key now v =
           postPromise (srv\<lparr>storage := st\<rparr>) r key now v (requestedPromiseTTL r)" for v
    using assms(2)
    by (auto simp: postPromiseTTL_def postHeadersPass_def requestedPromiseTTL_def
        split: header_int.splits)
  show ?thesis
    using assms(2) m
    by (auto simp: handlePost_def g t st [symmetric] postHeadersPass_def CanFit_def
        split: header_int.splits)
qed

lemma conflict_response_any:
  assumes "fst (GetEntry (storage srv) key now) = Inl ErrKeyNotFound"
    and "postHeadersPass (storage srv) r key"
    and "promises srv key = Some p" and "ExpiresAt p = now + remaining" and "0 < remaining"
  shows "fst (handlePost srv r key now) =
           \<lparr>StatusCode = StatusConflict,
            Header = [(headerPromiseTTL, Number (remaining div Millisecond)),
                      (headerRetryAfter, Number (int_of_float64 (Seconds remaining) + 1))],
            Body = []\<rparr> \<and>
         promises (snd (handlePost srv r key now)) = promises srv"
proof -
  have g: "Promise_Get (promises srv) key now = (Some p, promises srv)"
    using assms(3,4,5) by (simp add: Promise_Get_def)
  then have rt: "RemainingTTL (promises srv) key now = (remaining, promises srv)"
    using assms(4,5) by (simp add: RemainingTTL_def)
  have ms: "Milliseconds remaining = remaining div Millisecond"
    using assms(5) by (simp add: Milliseconds_def quo_nonneg Millisecond_def)
  show ?thesis
    by (simp add: handlePost_to_postPromise [OF assms(1,2)] postPromise_def g
        conflictResponse_def rt ms)
qed

lemma conflict_response:
  assumes "fst (GetEntry (storage srv) key now) = Inl ErrKeyNotFound"
    and "postHeadersPass (storage srv) r key"
    and "promises srv key = Some p" and "ExpiresAt p = now + remaining" and "0 < remaining"
    and "remaining < 16777216 * Second"
  shows "fst (handlePost srv r key now) =
           \<lparr>StatusCode = StatusConflict,
            Header = [(headerPromiseTTL, Number (remaining div Millisecond)),
                      (headerRetryAfter, Number (remaining div Second + 1))],
            Body = []\<rparr> \<and>
         promises (snd (handlePost srv r key now)) = promises srv"
proof -
  have sc: "int_of_float64 (Seconds remaining) = remaining div Second"
    using assms(5,6) by (intro int_Seconds) simp_all
  show ?thesis using conflict_response_any [OF assms(1,2,3,4,5)] by (simp only: sc)
qed

lemma Error_text_not_mismatch:
  "Error_text err \<noteq> ''Content-Length does not match promised size''"
  by (cases err) simp_all

lemma putStore_not_mismatch:
  "Body (fst (putStore srv key val ttl now)) \<noteq> ''Content-Length does not match promised size''"
  by (simp add: putStore_def http_Error_def Error_text_not_mismatch Let_def
      split: prod.split option.split)

lemma putBody_not_mismatch:
  "Body (fst (putBody srv r key now)) \<noteq> ''Content-Length does not match promised size''"
  by (simp add: putBody_def http_Error_def putStore_not_mismatch
      split: body_read.split header_int.split)

lemma postPromise_accepts:
  assumes "promises srv key = None"
  shows "StatusCode (fst (postPromise srv r key now valueSize promiseTTL)) = StatusAccepted"
  using assms by (simp add: postPromise_def Promise_Get_def Create_def Let_def)

lemma mismatch_response:
  assumes "0 \<le> ContentLength r" and "ContentLength r \<le> int MaxValueSizeBytes"
    and "promises srv key = Some p" and "now < ExpiresAt p"
    and "0 \<le> Size p" and "ContentLength r \<noteq> Size p"
  shows "handlePut srv r key now =
           (http_Error ''Content-Length does not match promised size'' StatusConflict,
            srv\<lparr>promises := (promises srv)(key := None)\<rparr>)"
  using assms by (simp add: handlePut_def Promise_Get_def Fulfill_def)

lemma Promise_Get_not_live:
  assumes "case pm key of None \<Rightarrow> True | Some p \<Rightarrow> ExpiresAt p < now"
  shows "Promise_Get pm key now = (None, pm(key := None))"
  using assms by (auto simp: Promise_Get_def split: option.splits)

lemma dry_run_response:
  assumes "storage_inv (storage srv)"
    and "fst (GetEntry (storage srv) key now) = Inl ErrKeyNotFound"
    and "postHeadersPass (storage srv) r key"
    and "dryRunHeader r = ''true''"
    and "case promises srv key of None \<Rightarrow> True | Some p \<Rightarrow> ExpiresAt p < now"
  shows "handlePost srv r key now =
           (\<lparr>StatusCode = StatusAccepted,
             Header = [(headerPromiseTTL, Number (Milliseconds (requestedPromiseTTL r)))],
             Body = []\<rparr>,
            srv\<lparr>storage := snd (Get (storage srv) key now),
                promises := (promises srv)(key := None)\<rparr>)"
  using assms(4) Promise_Get_not_live [where pm = "promises srv" and key = key and now = now] assms(5)
  by (simp add: handlePost_to_postPromise [OF assms(2,3)] postPromise_def)

lemma server_with_reachable:
  "snd (handlePost fresh_server (post_with HeaderAbsent) ''x'' 0) = server_with promise_x"
  "snd (handlePost fresh_server (post_with (HeaderInt 0)) ''x'' 0) = server_with promise_zero"
  "snd (handlePost fresh_server (post_with (HeaderInt 10)) ''x'' 0) = server_with promise_ten"
  by (simp_all add: handlePost_def postPromiseTTL_def postPromise_def GetEntry_def Get_def
      validateKey_def MaxKeySizeBytes_def NewInMemoryStorage_def fresh_server_def post_with_def
      Promise_Get_def Create_def CanFit_def int64_def Millisecond_def Let_def
      server_with_def promise_x_def promise_zero_def promise_ten_def)

text \<open>
  The bound of \<open>conflict_response\<close> is needed.  With 16777216.999999999 seconds remaining
  the 409 carries \<open>Retry-After: 16777218\<close>, the whole seconds plus 2: \<open>Seconds\<close> has
  rounded up to 16777217.
\<close>

lemma conflict_response_rounds_up:
  "snd (handlePost fresh_server long_post ''x'' 0) = server_with promise_long \<and>
   ExpiresAt promise_long = 1 + 16777216999999999 \<and>
   16777216999999999 div Second + 1 = 16777217 \<and>
   map_of (Header (fst (handlePost (server_with promise_long) plain_post ''x'' 1))) headerRetryAfter
     = Some (Number 16777218)"
proof -
  have 1: "snd (handlePost fresh_server long_post ''x'' 0) = server_with promise_long"
    by (simp add: handlePost_def postPromiseTTL_def postPromise_def GetEntry_def Get_def
        validateKey_def MaxKeySizeBytes_def NewInMemoryStorage_def fresh_server_def long_post_def
        Promise_Get_def Create_def CanFit_def int64_def Millisecond_def Let_def
        server_with_def promise_long_def)
  have g: "fst (GetEntry (storage (server_with promise_long)) ''x'' 1) = Inl ErrKeyNotFound"
    by (simp add: server_with_def GetEntry_def Get_def validateKey_def MaxKeySizeBytes_def
        NewInMemoryStorage_def)
  have h: "postHeadersPass (storage (server_with promise_long)) plain_post ''x''"
    by (simp add: postHeadersPass_def plain_post_def)
  have p: "promises (server_with promise_long) ''x'' = Some promise_long"
    by (simp add: server_with_def)
  have e: "ExpiresAt promise_long = 1 + 16777216999999999" by (simp add: promise_long_def)
  have "(0::int) < 16777216999999999" by simp
  note c = conflict_response_any [OF g h p e this]
  show ?thesis
    using Seconds_rounds_up by (simp add: 1 e c headerPromiseTTL_def headerRetryAfter_def)
qed

section \<open>Rendezvous ranking\<close>

lemma sb_irrefl: "\<not> scoreBetter a a"
  by (simp add: scoreBetter_def)

lemma sb_trans: "scoreBetter a b \<Longrightarrow> scoreBetter b c \<Longrightarrow> scoreBetter a c"
  by (auto simp: scoreBetter_def split: if_splits)

lemma sb_total:
  "identityString (node a) \<noteq> identityString (node b) \<Longrightarrow> scoreBetter a b \<or> scoreBetter b a"
  by (auto simp: scoreBetter_def)

lemma scores_differ:
  assumes "distinct (map identityString nodes)"
    and "x \<in> set (map (computeScore h key) nodes)" and "y \<in> set (map (computeScore h key) nodes)"
    and "x \<noteq> y"
  shows "identityString (node x) \<noteq> identityString (node y)"
proof -
  obtain n m where n: "n \<in> set nodes" "x = computeScore h key n"
    and m: "m \<in> set nodes" "y = computeScore h key m"
    using assms(2,3) by auto
  have "n \<noteq> m" using assms(4) n m by auto
  moreover have "inj_on identityString (set nodes)" using assms(1) by (simp add: distinct_map)
  ultimately have "identityString n \<noteq> identityString m" using n(1) m(1) by (auto dest: inj_onD)
  then show ?thesis using n m by (simp add: computeScore_def)
qed

lemma scores_distinct:
  assumes "distinct (map identityString nodes)"
  shows "distinct (map (computeScore h key) nodes)"
proof -
  have "map identityString nodes = map (\<lambda>s. identityString (node s)) (map (computeScore h key) nodes)"
    by (simp add: computeScore_def)
  then show ?thesis using assms by (metis distinct_map)
qed

lemma foldl_best:
  assumes "b0 \<in> A" and "\<forall>x \<in> A. \<not> scoreBetter x b0"
  shows "foldl (bestStep h key) b0 rest \<in> A \<union> computeScore h key ` set rest \<and>
         (\<forall>x \<in> A \<union> computeScore h key ` set rest.
            \<not> scoreBetter x (foldl (bestStep h key) b0 rest))"
  using assms
proof (induction rest arbitrary: b0 A)
  case Nil
  then show ?case by simp
next
  case (Cons n rest)
  let ?c = "computeScore h key n"
  let ?b1 = "bestStep h key b0 n"
  have 1: "?b1 \<in> insert ?c A" using Cons.prems(1) by (simp add: bestStep_def Let_def)
  have 2: "\<forall>x \<in> insert ?c A. \<not> scoreBetter x ?b1"
  proof (cases "scoreBetter ?c b0")
    case True
    then have "\<not> scoreBetter x ?c" if "x \<in> A" for x
      using Cons.prems(2) that sb_trans [of x ?c b0] by blast
    then show ?thesis using True by (simp add: bestStep_def Let_def sb_irrefl)
  next
    case False
    then show ?thesis using Cons.prems(2) by (simp add: bestStep_def Let_def)
  qed
  show ?case using Cons.IH [OF 1 2] by simp
qed

lemma sorted_head_is_max:
  assumes "sorted_wrt (\<lambda>a b. \<not> scoreBetter b a) S" and "b \<in> set S"
    and "\<forall>x \<in> set S. \<not> scoreBetter x b"
    and "\<And>x y. x \<in> set S \<Longrightarrow> y \<in> set S \<Longrightarrow> x \<noteq> y \<Longrightarrow> scoreBetter x y \<or> scoreBetter y x"
  shows "\<exists>T. S = b # T"
proof (cases S)
  case Nil
  then show ?thesis using assms(2) by simp
next
  case (Cons s0 T)
  have "s0 = b"
  proof (rule ccontr)
    assume ne: "s0 \<noteq> b"
    then have "b \<in> set T" using assms(2) Cons by simp
    then have "\<not> scoreBetter b s0" using assms(1) Cons by simp
    moreover have "\<not> scoreBetter s0 b" using assms(3) Cons by simp
    ultimately show False using assms(4) [of s0 b] ne assms(2) Cons by simp
  qed
  then show ?thesis using Cons by simp
qed

lemma topTwoStep_inv:
  assumes "topTwo A st" and "computeScore h key n \<notin> A"
  shows "topTwo (insert (computeScore h key n) A) (topTwoStep h key st n)"
proof -
  obtain f sec where st: "st = (f, sec)" by (cases st)
  let ?c = "computeScore h key n"
  have f: "f \<in> A" "\<forall>x \<in> A. \<not> scoreBetter x f" using assms(1) st by (simp_all add: topTwo_def)
  have cf: "?c \<noteq> f" using f(1) assms(2) by auto
  show ?thesis
  proof (cases "scoreBetter ?c f")
    case True
    have "\<not> scoreBetter x ?c" if "x \<in> A" for x
      using f(2) that True sb_trans [of x ?c f] by blast
    moreover have "insert ?c A - {?c} = A" using assms(2) by auto
    ultimately show ?thesis
      using True f cf st by (simp add: topTwoStep_def topTwo_def Let_def sb_irrefl)
  next
    case nb: False
    show ?thesis
    proof (cases sec)
      case None
      then have "A = {f}" using assms(1) st by (simp add: topTwo_def)
      then show ?thesis
        using nb None cf st by (auto simp: topTwoStep_def topTwo_def Let_def sb_irrefl)
    next
      case (Some s)
      then have s: "s \<in> A" "s \<noteq> f" "\<forall>x \<in> A - {f}. \<not> scoreBetter x s"
        using assms(1) st by (simp_all add: topTwo_def)
      show ?thesis
      proof (cases "scoreBetter ?c s")
        case True
        have "\<not> scoreBetter x ?c" if "x \<in> A - {f}" for x
          using s(3) that True sb_trans [of x ?c s] by blast
        then show ?thesis
          using nb True Some f cf st by (auto simp: topTwoStep_def topTwo_def Let_def sb_irrefl)
      next
        case False
        then show ?thesis
          using nb Some f s cf st by (auto simp: topTwoStep_def topTwo_def Let_def)
      qed
    qed
  qed
qed

lemma foldl_two:
  assumes "topTwo A st" and "distinct (map (computeScore h key) rest)"
    and "computeScore h key ` set rest \<inter> A = {}"
  shows "topTwo (A \<union> computeScore h key ` set rest) (foldl (topTwoStep h key) st rest)"
  using assms
proof (induction rest arbitrary: st A)
  case Nil
  then show ?case by simp
next
  case (Cons n rest)
  let ?c = "computeScore h key n"
  have c: "?c \<notin> A" using Cons.prems(3) by auto
  have 1: "topTwo (insert ?c A) (topTwoStep h key st n)"
    using Cons.prems(1) c by (rule topTwoStep_inv)
  have 2: "distinct (map (computeScore h key) rest)" using Cons.prems(2) by simp
  have 3: "computeScore h key ` set rest \<inter> insert ?c A = {}"
    using Cons.prems(2,3) by auto
  show ?case using Cons.IH [OF 1 2 3] by simp
qed

lemma GetNodes_as_take:
  assumes "distinct (map identityString nodes)"
    and "sorts sort_Slice scoreBetter (map (computeScore h key) nodes)"
    and "0 < k"
  shows "GetNodes sort_Slice h nodes key k =
           take (nat k) (map node (sort_Slice scoreBetter (map (computeScore h key) nodes)))"
proof -
  let ?xs = "map (computeScore h key) nodes"
  let ?S = "sort_Slice scoreBetter ?xs"
  have ms: "mset ?S = mset ?xs" and so: "sorted_wrt (\<lambda>a b. \<not> scoreBetter b a) ?S"
    using assms(2) by (simp_all add: sorts_def)
  have set: "set ?S = set ?xs" using ms by (rule mset_eq_setD)
  have len: "length ?S = length nodes" using ms mset_eq_length by fastforce
  have dx: "distinct ?xs" using assms(1) by (rule scores_distinct)
  have dS: "distinct ?S" using ms dx by (metis mset_eq_imp_distinct_iff)
  have tot: "scoreBetter x y \<or> scoreBetter y x" if "x \<in> set ?S" "y \<in> set ?S" "x \<noteq> y" for x y
    using that set scores_differ [OF assms(1), of x h key y] sb_total by auto
  show ?thesis
  proof (cases nodes)
    case Nil
    then have "?S = []" using ms by simp
    then show ?thesis using Nil by (simp add: GetNodes_def)
  next
    case (Cons n0 rest)
    let ?c0 = "computeScore h key n0"
    consider "k = 1" | "k = 2" | "2 < k" using assms(3) by linarith
    then show ?thesis
    proof cases
      case 1
      let ?b = "foldl (bestStep h key) ?c0 rest"
      have "?b \<in> {?c0} \<union> computeScore h key ` set rest \<and>
            (\<forall>x \<in> {?c0} \<union> computeScore h key ` set rest. \<not> scoreBetter x ?b)"
        by (rule foldl_best) (simp_all add: sb_irrefl)
      then have b: "?b \<in> set ?S" "\<forall>x \<in> set ?S. \<not> scoreBetter x ?b"
        using set Cons by simp_all
      obtain T where "?S = ?b # T"
        using sorted_head_is_max [OF so b tot] by blast
      then show ?thesis using 1 Cons by (simp add: GetNodes_def)
    next
      case 2
      obtain f sec where fs: "foldl (topTwoStep h key) (?c0, None) rest = (f, sec)"
        by (cases "foldl (topTwoStep h key) (?c0, None) rest")
      have t0: "topTwo {?c0} (?c0, None)" by (simp add: topTwo_def sb_irrefl)
      have "topTwo ({?c0} \<union> computeScore h key ` set rest)
              (foldl (topTwoStep h key) (?c0, None) rest)"
        using dx Cons by (intro foldl_two [OF t0]) auto
      then have tt: "topTwo (set ?S) (f, sec)" using set Cons fs by simp
      then have f: "f \<in> set ?S" "\<forall>x \<in> set ?S. \<not> scoreBetter x f"
        by (simp_all add: topTwo_def)
      obtain T where T: "?S = f # T" using sorted_head_is_max [OF so f tot] by blast
      show ?thesis
      proof (cases sec)
        case None
        then have "set ?S = {f}" using tt by (simp add: topTwo_def)
        then have "T = []" using dS T by (cases T) auto
        then show ?thesis using 2 Cons fs None T by (simp add: GetNodes_def)
      next
        case (Some s)
        then have s: "s \<in> set ?S" "s \<noteq> f" "\<forall>x \<in> set ?S - {f}. \<not> scoreBetter x s"
          using tt by (simp_all add: topTwo_def)
        have sT: "sorted_wrt (\<lambda>a b. \<not> scoreBetter b a) T" using so T by simp
        have setT: "set T = set ?S - {f}" using dS T by auto
        have "\<exists>U. T = s # U"
        proof (rule sorted_head_is_max [OF sT])
          show "s \<in> set T" using s setT by simp
          show "\<forall>x \<in> set T. \<not> scoreBetter x s" using s(3) setT by simp
          show "scoreBetter x y \<or> scoreBetter y x" if "x \<in> set T" "y \<in> set T" "x \<noteq> y" for x y
            using that tot [of x y] setT by simp
        qed
        then obtain U where "T = s # U" by blast
        then show ?thesis using 2 Cons fs Some T by (simp add: GetNodes_def)
      qed
    next
      case 3
      have ne: "length nodes \<noteq> 0" using Cons by simp
      have t: "take (nat (if k > int (length nodes) then int (length nodes) else k)) ?S =
               take (nat k) ?S"
        using len by simp
      have "GetNodes sort_Slice h nodes key k =
              map node (take (nat (if k > int (length nodes) then int (length nodes) else k)) ?S)"
        using 3 ne by (simp add: GetNodes_def Let_def)
      then show ?thesis by (simp only: t take_map)
    qed
  qed
qed

lemma scores_abc:
  "computeScore byte_sum ''k'' node_a = \<lparr>node = node_a, score = 110\<rparr>"
  "computeScore byte_sum ''k'' node_b = \<lparr>node = node_b, score = 112\<rparr>"
  "computeScore byte_sum ''k'' node_c = \<lparr>node = node_c, score = 112\<rparr>"
  by (simp_all add: computeScore_def byte_sum_def LittleEndian_PutUint64_def node_a_def
      node_b_def node_c_def)

lemma sorted_abc:
  "insertion_sort scoreBetter
     [\<lparr>node = node_a, score = 110\<rparr>, \<lparr>node = node_b, score = 112\<rparr>,
      \<lparr>node = node_c, score = 112\<rparr>] =
     [\<lparr>node = node_b, score = 112\<rparr>, \<lparr>node = node_c, score = 112\<rparr>,
      \<lparr>node = node_a, score = 110\<rparr>]"
  by (simp add: insertion_sort_def scoreBetter_def node_a_def node_b_def node_c_def)

section \<open>Memory accounting\<close>

text \<open>
  C2.  Start from a fresh store of capacity \<open>cap\<close> and run any sequence of \<open>Get\<close>, \<open>Put\<close>
  and \<open>Delete\<close>, each at any clock reading.  On exit from the last operation (hence from
  each one, every prefix of a run being a run) \<open>memoryUsedBytes\<close> is the sum of
  \<open>len(key) + len(value)\<close> over the entries of the map, and it is at most \<open>maxMemory\<close>.
  The capacity is below \<open>2 ^ 63\<close> bytes and every value put is shorter than \<open>2 ^ 63\<close> bytes,
  so that the \<open>uint64\<close> counters never wrap.
\<close>

theorem memory_accounting_invariant:
  assumes "cap < 2 ^ 63" and "\<forall>p \<in> set ops. slice_ok (fst p)"
  shows "memoryUsedBytes (run (NewInMemoryStorage cap) ops) =
           (\<Sum>k \<in> dom (store (run (NewInMemoryStorage cap) ops)).
               length k + length (Value (the (store (run (NewInMemoryStorage cap) ops) k)))) \<and>
         memoryUsedBytes (run (NewInMemoryStorage cap) ops) \<le> cap"
proof -
  have i: "storage_inv (run (NewInMemoryStorage cap) ops)"
    and m: "maxMemory (run (NewInMemoryStorage cap) ops) = cap"
    using run_inv [OF New_inv [OF assms(1)] assms(2)] by (simp_all add: NewInMemoryStorage_def)
  have "memoryUsedBytes (run (NewInMemoryStorage cap) ops) \<le> cap"
    using i m by (simp add: storage_inv_def)
  then show ?thesis using inv_accounting [OF i] by simp
qed

theorem memory_accounting_invariant_witness:
  "(20::nat) < 2 ^ 63 \<and>
   slice_ok (OpPut ''a'' ''11111'' 3600) \<and> slice_ok (OpGet ''a'') \<and>
   slice_ok (OpPut ''b'' ''22222'' 3600) \<and> slice_ok (OpDelete ''a'') \<and>
   memoryUsedBytes (run (NewInMemoryStorage 20)
       [(OpPut ''a'' ''11111'' 3600, 0), (OpGet ''a'', 1),
        (OpPut ''b'' ''22222'' 3600, 2), (OpDelete ''a'', 3)]) =
     (\<Sum>k \<in> dom (store (run (NewInMemoryStorage 20)
           [(OpPut ''a'' ''11111'' 3600, 0), (OpGet ''a'', 1),
            (OpPut ''b'' ''22222'' 3600, 2), (OpDelete ''a'', 3)])).
         length k + length (Value (the (store (run (NewInMemoryStorage 20)
           [(OpPut ''a'' ''11111'' 3600, 0), (OpGet ''a'', 1),
            (OpPut ''b'' ''22222'' 3600, 2), (OpDelete ''a'', 3)]) k)))) \<and>
   memoryUsedBytes (run (NewInMemoryStorage 20)
       [(OpPut ''a'' ''11111'' 3600, 0), (OpGet ''a'', 1),
        (OpPut ''b'' ''22222'' 3600, 2), (OpDelete ''a'', 3)]) \<le> 20"
  using memory_accounting_invariant [of 20
      "[(OpPut ''a'' ''11111'' 3600, 0), (OpGet ''a'', 1),
        (OpPut ''b'' ''22222'' 3600, 2), (OpDelete ''a'', 3)]"]
  by (simp add: slice_ok_def)

section \<open>Validation order of Put\<close>

text \<open>
  C4 (as amended).  \<open>Put\<close> checks the key length first, then \<open>ttl > 0\<close>, then that the value
  is not empty: with a key of valid length and \<open>ttl \<le> 0\<close> it returns \<open>ErrInvalidTTL\<close>
  whatever the value is, and \<open>ErrValueTooShort\<close> is returned only for an empty value with a
  valid key and \<open>ttl > 0\<close>.  A key of invalid length gets the key error whatever the rest.
  The storage is unchanged in all three cases.
\<close>

theorem Put_validation_order:
  "(validateKey key = Some err \<longrightarrow> Put s key val ttl now = (Some err, s)) \<and>
   (validateKey key = None \<and> ttl \<le> 0 \<longrightarrow> Put s key val ttl now = (Some ErrInvalidTTL, s)) \<and>
   (validateKey key = None \<and> 0 < ttl \<and> val = [] \<longrightarrow>
      Put s key val ttl now = (Some ErrValueTooShort, s))"
  by (simp add: Put_def)

theorem Put_validation_order_witness:
  "validateKey ''key'' = None \<and> (0::int) \<le> 0 \<and>
   Put (NewInMemoryStorage 1000) ''key'' [] 0 0 = (Some ErrInvalidTTL, NewInMemoryStorage 1000) \<and>
   validateKey [] = Some ErrKeyTooShort \<and>
   Put (NewInMemoryStorage 1000) [] [] 0 0 = (Some ErrKeyTooShort, NewInMemoryStorage 1000) \<and>
   Put (NewInMemoryStorage 1000) ''key'' [] 1 0 = (Some ErrValueTooShort, NewInMemoryStorage 1000)"
  using Put_validation_order [of "''key''" ErrKeyTooShort "NewInMemoryStorage 1000" "[]" 0 0]
        Put_validation_order [of "[]" ErrKeyTooShort "NewInMemoryStorage 1000" "[]" 0 0]
        Put_validation_order [of "''key''" ErrKeyTooShort "NewInMemoryStorage 1000" "[]" 1 0]
  by (simp add: validateKey_def MaxKeySizeBytes_def)

text \<open>
  C4, the claim as written fails: with a valid key, an empty value and \<open>ttl = 0\<close> the result
  is \<open>ErrInvalidTTL\<close>, not \<open>ErrValueTooShort\<close>.
\<close>

theorem Put_empty_value_zero_ttl_counterexample:
  "fst (Put (NewInMemoryStorage 1000) ''key'' [] 0 0) \<noteq> Some ErrValueTooShort"
  by (simp add: Put_def validateKey_def MaxKeySizeBytes_def)

section \<open>Put at the capacity boundary\<close>

text \<open>
  C6 (as amended).  Let the key be valid, the value non-empty and \<open>ttl > 0\<close>.  If
  \<open>len(key) + len(value)\<close> equals \<open>maxMemory\<close> exactly and the store is empty or holds only
  an entry under the same key, \<open>Put\<close> succeeds, stores the new entry and leaves
  \<open>memoryUsedBytes = maxMemory\<close>.  If \<open>len(key) + len(value)\<close> equals \<open>maxMemory + 1\<close>,
  \<open>Put\<close> returns \<open>ErrObjectTooLarge\<close> and changes nothing, whatever the store holds.
\<close>

theorem Put_capacity_boundary:
  assumes "storage_inv s" and "validateKey key = None" and "0 < ttl" and "val \<noteq> []"
  shows "(length key + length val = maxMemory s \<and> dom (store s) \<subseteq> {key} \<longrightarrow>
            fst (Put s key val ttl now) = None \<and>
            store (snd (Put s key val ttl now)) key =
              Some \<lparr>Key = key, Value = val, ExpirationTime = now + ttl\<rparr> \<and>
            memoryUsedBytes (snd (Put s key val ttl now)) = maxMemory s) \<and>
         (length key + length val = maxMemory s + 1 \<longrightarrow>
            Put s key val ttl now = (Some ErrObjectTooLarge, s))"
proof (intro conjI impI)
  assume big: "length key + length val = maxMemory s + 1"
  have "maxMemory s + 1 < 2 ^ 64" using assms(1) by (simp add: storage_inv_def)
  then have "uint64 (length key + length val) = maxMemory s + 1"
    using big by (simp add: uint64_small)
  then show "Put s key val ttl now = (Some ErrObjectTooLarge, s)"
    using assms(2,3,4) by (simp add: Put_def)
next
  assume h: "length key + length val = maxMemory s \<and> dom (store s) \<subseteq> {key}"
  define e where "e = (case store s key of Some existing \<Rightarrow> GetBytesUsed existing | None \<Rightarrow> 0)"
  define n where "n = uint64 (length key + length val)"
  have cap: "maxMemory s < 2 ^ 63" "memoryUsedBytes s \<le> maxMemory s"
    using assms(1) by (simp_all add: storage_inv_def)
  have n: "n = maxMemory s" using h cap by (simp add: n_def uint64_small)
  have e: "memoryUsedBytes s = e" using dom_only_key_mem [OF assms(1)] h by (simp add: e_def)
  have "u64_sub n e = n - e" using cap e n by (simp add: u64_sub_small)
  moreover have "u64_add (memoryUsedBytes s) (n - e) = n" using cap e n by (simp add: u64_add_small)
  ultimately have nofree:
    "\<not> maxMemory s < u64_add (memoryUsedBytes s) (if e < n then u64_sub n e else 0)"
    using cap e n by (simp add: u64_add_small)
  have nle: "\<not> maxMemory s < n" using n by simp
  have p: "Put s key val ttl now = insertNew s key val ttl now n e"
    using assms(2,3,4) nle nofree
    by (simp add: Put_def Let_def n_def [symmetric] e_def [symmetric])
  have fit: "memoryUsedBytes s - e + n \<le> maxMemory s" using e n by simp
  note r = insertNew_fits [OF assms(1) n_def _ e_def fit, where ttl = ttl and now = now]
  show "fst (Put s key val ttl now) = None" using r(1) n by (simp add: p)
  show "store (snd (Put s key val ttl now)) key =
              Some \<lparr>Key = key, Value = val, ExpirationTime = now + ttl\<rparr>"
    using r(2) n by (simp add: p)
  show "memoryUsedBytes (snd (Put s key val ttl now)) = maxMemory s"
    using r(3) n e by (simp add: p)
qed

theorem Put_capacity_boundary_witness:
  "storage_inv (NewInMemoryStorage 10) \<and> validateKey ''key'' = None \<and> (0::int) < hour \<and>
   ''1234567'' \<noteq> [] \<and>
   length ''key'' + length ''1234567'' = maxMemory (NewInMemoryStorage 10) \<and>
   dom (store (NewInMemoryStorage 10)) \<subseteq> {''key''} \<and>
   fst (Put (NewInMemoryStorage 10) ''key'' ''1234567'' hour 0) = None \<and>
   memoryUsedBytes (snd (Put (NewInMemoryStorage 10) ''key'' ''1234567'' hour 0)) = 10 \<and>
   length ''key'' + length ''12345678'' = maxMemory (NewInMemoryStorage 10) + 1 \<and>
   Put (NewInMemoryStorage 10) ''key'' ''12345678'' hour 0 =
     (Some ErrObjectTooLarge, NewInMemoryStorage 10)"
  using Put_capacity_boundary [of "NewInMemoryStorage 10" "''key''" hour "''1234567''" 0]
        Put_capacity_boundary [of "NewInMemoryStorage 10" "''key''" hour "''12345678''" 0]
        New_inv [of 10]
  by (simp add: validateKey_def MaxKeySizeBytes_def NewInMemoryStorage_def)

text \<open>
  C6, the claim as written fails: on \<open>store_b\<close>, which holds one six-byte entry, a \<open>Put\<close> of
  a new key whose size is exactly \<open>maxMemory = 20\<close> does not succeed.
\<close>

theorem Put_capacity_boundary_counterexample:
  "run (NewInMemoryStorage 20) [(OpPut ''b'' ''22222'' hour, 0)] = store_b \<and>
   validateKey ''a'' = None \<and>
   length ''a'' + length ''1234567890123456789'' = maxMemory store_b \<and>
   fst (Put store_b ''a'' ''1234567890123456789'' hour 1) \<noteq> None"
  by (simp add: store_b_reachable Put_store_b validateKey_def MaxKeySizeBytes_def)

section \<open>A failed Put can delete entries\<close>

text \<open>
  C10.  \<open>Put\<close> is not atomic on capacity failure.  On the reachable store \<open>store_b\<close>
  (capacity 20, one live six-byte entry \<open>b\<close>), \<open>Put\<close> of the new key \<open>a\<close> with a 19-byte
  value, whose size 20 fits \<open>maxMemory\<close>, returns \<open>ErrMemoryLimitExceeded\<close>: the eviction
  has to free 20 bytes and the store holds 6.  The entry \<open>b\<close> it deleted on the way stays
  deleted: the store is empty afterwards.
\<close>

theorem failed_Put_shrinks_store:
  "run (NewInMemoryStorage 20) [(OpPut ''b'' ''22222'' hour, 0)] = store_b \<and>
   dom (store store_b) = {''b''} \<and>
   length ''a'' + length ''1234567890123456789'' \<le> maxMemory store_b \<and>
   fst (Put store_b ''a'' ''1234567890123456789'' hour 1) = Some ErrMemoryLimitExceeded \<and>
   dom (store (snd (Put store_b ''a'' ''1234567890123456789'' hour 1))) = {}"
  by (simp add: store_b_reachable Put_store_b) (simp add: NewInMemoryStorage_def)

section \<open>Replacing the entry at the LRU head\<close>

text \<open>
  C1.  What the code does on the input of \<open>TestEviction_DeletesKeyBeingUpdated\<close>: capacity
  12, \<open>Put("a", "11111")\<close>, \<open>Put("b", "22222")\<close>, then \<open>Put("a", "1234567")\<close>.  The entry
  for \<open>a\<close> exists and is the LRU head, and the eviction path runs (12 + 2 > 12).  The
  eviction deletes \<open>a\<close>, the re-resolved old size is 0, and the final check
  \<open>6 + 8 > 12\<close> returns \<open>ErrMemoryLimitExceeded\<close>: the operation does not succeed, and the
  key is left without any entry.
\<close>

theorem Put_own_key_at_head_fails:
  "run (NewInMemoryStorage 12) [(OpPut ''a'' ''11111'' hour, 0), (OpPut ''b'' ''22222'' hour, 0)]
     = store_ab \<and>
   front (lru store_ab) = Some obj_a \<and> Key obj_a = ''a'' \<and>
   fst (Put store_ab ''a'' ''1234567'' hour 1) = Some ErrMemoryLimitExceeded \<and>
   store (snd (Put store_ab ''a'' ''1234567'' hour 1)) ''a'' = None \<and>
   lru (snd (Put store_ab ''a'' ''1234567'' hour 1)) = [obj_b]"
  by (simp add: store_ab_reachable Put_store_ab front_def store_ab_less_a_def)

section \<open>Get on an expired entry\<close>

text \<open>
  C7.  In a consistent store, \<open>Get\<close> on a key whose entry has \<open>ExpirationTime < now\<close>
  returns \<open>ErrKeyNotFound\<close> and, in the same step, removes the entry from the map and from
  the LRU list and subtracts its size from \<open>memoryUsedBytes\<close> (the size is at most
  \<open>memoryUsedBytes\<close>, so the subtraction is exact).  \<open>Get\<close> on a key of valid length that
  has no entry returns the same \<open>ErrKeyNotFound\<close> and leaves the store as it is: the caller
  cannot tell the two apart.
\<close>

theorem Get_expired_entry:
  assumes "storage_inv s" and "store s key = Some c" and "ExpirationTime c < now"
  shows "Get s key now =
           (Inl ErrKeyNotFound,
            s\<lparr>lru := remove1 c (lru s), store := (store s)(key := None),
              memoryUsedBytes := memoryUsedBytes s - GetBytesUsed c\<rparr>) \<and>
         GetBytesUsed c \<le> memoryUsedBytes s \<and>
         c \<notin> set (remove1 c (lru s)) \<and>
         (\<forall>k. validateKey k = None \<and> store s k = None \<longrightarrow>
              Get s k now = (Inl ErrKeyNotFound, s))"
proof -
  have c: "c \<in> set (lru s)" "Key c = key" using inv_member [OF assms(1,2)] by simp_all
  have "entry_ok c" using assms(1) c(1) by (simp add: storage_inv_def)
  then have v: "validateKey key = None" using c(2) by (simp add: validateKey_None entry_ok_def)
  have "distinct (lru s)" using assms(1) by (simp add: storage_inv_def distinct_map)
  then have "c \<notin> set (remove1 c (lru s))" by simp
  moreover have "GetBytesUsed c \<le> memoryUsedBytes s" using assms(1) c(1) by (rule inv_size_le)
  moreover have "Get s key now =
           (Inl ErrKeyNotFound,
            s\<lparr>lru := remove1 c (lru s), store := (store s)(key := None),
              memoryUsedBytes := memoryUsedBytes s - GetBytesUsed c\<rparr>)"
    using v assms(2,3) deleteUnlocked_present [OF assms(1,2)] by (simp add: Get_def)
  ultimately show ?thesis by (simp add: Get_def)
qed

theorem Get_expired_entry_witness:
  "storage_inv store_b \<and> store store_b ''b'' = Some obj_b \<and> ExpirationTime obj_b < hour + 1 \<and>
   Get store_b ''b'' (hour + 1) =
     (Inl ErrKeyNotFound,
      store_b\<lparr>lru := remove1 obj_b (lru store_b), store := (store store_b)(''b'' := None),
         memoryUsedBytes := memoryUsedBytes store_b - GetBytesUsed obj_b\<rparr>) \<and>
   validateKey ''a'' = None \<and> store store_b ''a'' = None \<and>
   Get store_b ''a'' (hour + 1) = (Inl ErrKeyNotFound, store_b)"
proof -
  have i: "storage_inv store_b"
    using run_inv [OF New_inv [of 20], of "[(OpPut ''b'' ''22222'' hour, 0)]"]
    by (simp add: store_b_reachable slice_ok_def)
  show ?thesis
    using Get_expired_entry [OF i, of "''b''" obj_b "hour + 1"] i
    by (simp add: validateKey_def MaxKeySizeBytes_def)
qed


section \<open>POST on a key with a live promise\<close>

text \<open>
  C3 (as amended).  A POST whose key the storage does not hold, whose headers pass the
  checks, and whose key has a promise with remaining lifetime \<open>remaining\<close>, more than 0
  and less than \<open>2 ^ 24\<close> seconds (about 194 days), gets 409 Conflict with
  \<open>x-jc-promise-ttl\<close> equal to \<open>remaining\<close> in whole milliseconds (rounded down) and
  \<open>Retry-After\<close> equal to \<open>remaining\<close> in whole seconds, rounded down, plus 1.  The promise
  map is unchanged.  The bound is that of \<open>int_Seconds\<close>: above it \<open>Seconds\<close> can round up
  to the next second, as \<open>conflict_response_rounds_up\<close> shows.
\<close>

theorem handlePost_conflict:
  assumes "fst (GetEntry (storage srv) key now) = Inl ErrKeyNotFound"
    and "postHeadersPass (storage srv) r key"
    and "promises srv key = Some p" and "ExpiresAt p = now + remaining" and "0 < remaining"
    and "remaining < 16777216 * Second"
  shows "fst (handlePost srv r key now) =
           \<lparr>StatusCode = StatusConflict,
            Header = [(headerPromiseTTL, Number (remaining div Millisecond)),
                      (headerRetryAfter, Number (remaining div Second + 1))],
            Body = []\<rparr> \<and>
         promises (snd (handlePost srv r key now)) = promises srv"
  using assms by (rule conflict_response)

theorem handlePost_conflict_witness:
  "fst (GetEntry (storage (server_with promise_x)) ''x'' 0) = Inl ErrKeyNotFound \<and>
   postHeadersPass (storage (server_with promise_x)) plain_post ''x'' \<and>
   promises (server_with promise_x) ''x'' = Some promise_x \<and>
   ExpiresAt promise_x = 0 + 1500000000 \<and> (0::int) < 1500000000 \<and>
   1500000000 < 16777216 * Second \<and>
   fst (handlePost (server_with promise_x) plain_post ''x'' 0) =
     \<lparr>StatusCode = 409,
      Header = [(''x-jc-promise-ttl'', Number 1500), (''Retry-After'', Number 2)],
      Body = []\<rparr>"
  using handlePost_conflict [of "server_with promise_x" "''x''" 0 plain_post promise_x 1500000000]
  by (simp add: server_with_def promise_x_def plain_post_def postHeadersPass_def GetEntry_def
      Get_def validateKey_def MaxKeySizeBytes_def NewInMemoryStorage_def Millisecond_def
      Second_def StatusConflict_def headerPromiseTTL_def headerRetryAfter_def)

text \<open>
  C3, the claim as written fails: with 1.5 seconds remaining the header \<open>Retry-After\<close> is 2,
  while \<open>ceil(1.5) + 1\<close> is 3.
\<close>

theorem handlePost_conflict_counterexample:
  "snd (handlePost fresh_server (post_with HeaderAbsent) ''x'' 0) = server_with promise_x \<and>
   promises (server_with promise_x) ''x'' = Some promise_x \<and>
   ExpiresAt promise_x - 0 = 1500000000 \<and>
   map_of (Header (fst (handlePost (server_with promise_x) plain_post ''x'' 0))) headerRetryAfter
     = Some (Number 2) \<and>
   spec_retry_after 1500000000 = 3"
  using conflict_response [of "server_with promise_x" "''x''" 0 plain_post promise_x 1500000000]
  by (simp add: server_with_def promise_x_def plain_post_def postHeadersPass_def GetEntry_def
      Get_def validateKey_def MaxKeySizeBytes_def NewInMemoryStorage_def Millisecond_def
      Second_def StatusConflict_def headerPromiseTTL_def headerRetryAfter_def spec_retry_after_def
      server_with_reachable [unfolded server_with_def promise_x_def])

section \<open>PUT with a body of the wrong size\<close>

text \<open>
  C5 (as amended).  Take a PUT with \<open>0 \<le> Content-Length \<le> 64 MiB\<close> on a key with a live
  promise.  If the promise has a size that is not negative and \<open>Content-Length\<close> differs
  from it, the response is 409 with the size-mismatch message and the promise is deleted,
  so that a following POST for the key (not stored, headers passing) gets 202 Accepted.
  If the promise has a negative size (none was given), the response is never the
  size-mismatch one.
\<close>

theorem handlePut_size_mismatch:
  assumes "0 \<le> ContentLength r" and "ContentLength r \<le> int MaxValueSizeBytes"
    and "promises srv key = Some p" and "now < ExpiresAt p"
  shows "(0 \<le> Size p \<and> ContentLength r \<noteq> Size p \<longrightarrow>
            handlePut srv r key now =
              (http_Error ''Content-Length does not match promised size'' StatusConflict,
               srv\<lparr>promises := (promises srv)(key := None)\<rparr>) \<and>
            (fst (GetEntry (storage srv) key now') = Inl ErrKeyNotFound \<and>
               postHeadersPass (storage srv) r' key \<longrightarrow>
               StatusCode (fst (handlePost (snd (handlePut srv r key now)) r' key now'))
                 = StatusAccepted)) \<and>
         (Size p < 0 \<longrightarrow>
            Body (fst (handlePut srv r key now)) \<noteq> ''Content-Length does not match promised size'')"
proof (intro conjI impI)
  assume h: "0 \<le> Size p \<and> ContentLength r \<noteq> Size p"
  then show "handlePut srv r key now =
              (http_Error ''Content-Length does not match promised size'' StatusConflict,
               srv\<lparr>promises := (promises srv)(key := None)\<rparr>)"
    using assms by (simp add: mismatch_response)
next
  assume h: "0 \<le> Size p \<and> ContentLength r \<noteq> Size p"
  then have m: "handlePut srv r key now =
              (http_Error ''Content-Length does not match promised size'' StatusConflict,
               srv\<lparr>promises := (promises srv)(key := None)\<rparr>)"
    using assms by (simp add: mismatch_response)
  assume q: "fst (GetEntry (storage srv) key now') = Inl ErrKeyNotFound \<and>
             postHeadersPass (storage srv) r' key"
  let ?srv' = "srv\<lparr>promises := (promises srv)(key := None)\<rparr>"
  have "handlePost ?srv' r' key now' =
          postPromise (?srv'\<lparr>storage := snd (Get (storage ?srv') key now')\<rparr>) r' key now'
             (case sizeHeader r' of HeaderInt valueSize \<Rightarrow> valueSize | _ \<Rightarrow> - 1)
             (requestedPromiseTTL r')"
    using q by (intro handlePost_to_postPromise) simp_all
  then show "StatusCode (fst (handlePost (snd (handlePut srv r key now)) r' key now'))
                 = StatusAccepted"
    by (simp add: m postPromise_accepts)
next
  assume "Size p < 0"
  then show "Body (fst (handlePut srv r key now)) \<noteq> ''Content-Length does not match promised size''"
    using assms by (simp add: handlePut_def Promise_Get_def putBody_not_mismatch)
qed

theorem handlePut_size_mismatch_witness:
  "(0::int) \<le> ContentLength put_hello \<and> ContentLength put_hello \<le> int MaxValueSizeBytes \<and>
   promises (server_with promise_ten) ''x'' = Some promise_ten \<and> 0 < ExpiresAt promise_ten \<and>
   0 \<le> Size promise_ten \<and> ContentLength put_hello \<noteq> Size promise_ten \<and>
   StatusCode (fst (handlePut (server_with promise_ten) put_hello ''x'' 0)) = 409 \<and>
   promises (snd (handlePut (server_with promise_ten) put_hello ''x'' 0)) ''x'' = None \<and>
   fst (GetEntry (storage (server_with promise_ten)) ''x'' 1) = Inl ErrKeyNotFound \<and>
   postHeadersPass (storage (server_with promise_ten)) plain_post ''x'' \<and>
   StatusCode (fst (handlePost (snd (handlePut (server_with promise_ten) put_hello ''x'' 0))
                      plain_post ''x'' 1)) = 202 \<and>
   promises (server_with promise_x) ''x'' = Some promise_x \<and> 0 < ExpiresAt promise_x \<and>
   Size promise_x < 0 \<and>
   Body (fst (handlePut (server_with promise_x) put_hello ''x'' 0))
     \<noteq> ''Content-Length does not match promised size''"
  using handlePut_size_mismatch [of put_hello "server_with promise_ten" "''x''" promise_ten 0 1 plain_post]
        handlePut_size_mismatch [of put_hello "server_with promise_x" "''x''" promise_x 0 1 plain_post]
  by (auto simp add: server_with_def promise_ten_def promise_x_def put_hello_def plain_post_def
      postHeadersPass_def GetEntry_def Get_def validateKey_def MaxKeySizeBytes_def
      MaxValueSizeBytes_def NewInMemoryStorage_def http_Error_def StatusConflict_def
      StatusAccepted_def)

text \<open>
  C5, the claim as written fails: a promise of size 0 is not positive, and a PUT of five
  bytes under it is rejected for its size.
\<close>

theorem handlePut_size_mismatch_counterexample:
  "snd (handlePost fresh_server (post_with (HeaderInt 0)) ''x'' 0) = server_with promise_zero \<and>
   promises (server_with promise_zero) ''x'' = Some promise_zero \<and> 0 < ExpiresAt promise_zero \<and>
   \<not> 0 < Size promise_zero \<and>
   fst (handlePut (server_with promise_zero) put_hello ''x'' 0) =
     http_Error ''Content-Length does not match promised size'' StatusConflict"
  using mismatch_response [of put_hello "server_with promise_zero" "''x''" promise_zero 0]
  by (simp add: server_with_reachable)
     (simp add: server_with_def promise_zero_def put_hello_def MaxValueSizeBytes_def)

section \<open>Dry-run POST\<close>

text \<open>
  C9 (as amended).  Take a dry-run POST whose key the storage does not hold, whose headers
  pass the checks, and whose key has no promise or one that expired before \<open>now\<close>.  The
  response is 202 Accepted with \<open>x-jc-promise-ttl\<close> set to the requested promise TTL in
  milliseconds.  No promise is created: afterwards the map has no promise for the key and
  is otherwise as before (it is unchanged when the key had no promise; an expired promise
  of the key is removed by the lookup).  A following POST for the key that is not a dry
  run, at any time, gets 202 Accepted as well.
\<close>

theorem handlePost_dry_run:
  assumes "storage_inv (storage srv)"
    and "fst (GetEntry (storage srv) key now) = Inl ErrKeyNotFound"
    and "postHeadersPass (storage srv) r key"
    and "dryRunHeader r = ''true''"
    and "case promises srv key of None \<Rightarrow> True | Some p \<Rightarrow> ExpiresAt p < now"
  shows "fst (handlePost srv r key now) =
           \<lparr>StatusCode = StatusAccepted,
            Header = [(headerPromiseTTL, Number (Milliseconds (requestedPromiseTTL r)))],
            Body = []\<rparr> \<and>
         promises (snd (handlePost srv r key now)) = (promises srv)(key := None) \<and>
         (promises srv key = None \<longrightarrow>
            promises (snd (handlePost srv r key now)) = promises srv) \<and>
         (postHeadersPass (storage srv) r' key \<and> dryRunHeader r' \<noteq> ''true'' \<longrightarrow>
            StatusCode (fst (handlePost (snd (handlePost srv r key now)) r' key now'))
              = StatusAccepted)"
proof -
  note d = dry_run_response [OF assms]
  let ?srv' = "srv\<lparr>storage := snd (Get (storage srv) key now),
                promises := (promises srv)(key := None)\<rparr>"
  have again: "StatusCode (fst (handlePost ?srv' r' key now')) = StatusAccepted"
    if "postHeadersPass (storage srv) r' key"
  proof -
    have "fst (Get (storage srv) key now) = Inl ErrKeyNotFound"
      using assms(2) by (simp add: GetEntry_miss)
    then have "fst (Get (snd (Get (storage srv) key now)) key now') = Inl ErrKeyNotFound"
      using assms(1) by (rule Get_miss_again [rotated])
    then have 1: "fst (GetEntry (storage ?srv') key now') = Inl ErrKeyNotFound"
      by (simp add: GetEntry_miss)
    have 2: "postHeadersPass (storage ?srv') r' key"
      using that postHeadersPass_cong [of "snd (Get (storage srv) key now)" "storage srv" r' key]
      by (simp add: Get_maxMemory)
    show ?thesis
      by (simp add: handlePost_to_postPromise [OF 1 2] postPromise_accepts)
  qed
  have same: "(promises srv)(key := None) = promises srv" if "promises srv key = None"
    using that by (simp add: fun_upd_idem)
  show ?thesis using again same by (simp add: d)
qed

theorem handlePost_dry_run_witness:
  "storage_inv (storage (server_with promise_x)) \<and>
   fst (GetEntry (storage (server_with promise_x)) ''x'' 2000000000) = Inl ErrKeyNotFound \<and>
   postHeadersPass (storage (server_with promise_x)) dry_post ''x'' \<and>
   dryRunHeader dry_post = ''true'' \<and>
   promises (server_with promise_x) ''x'' = Some promise_x \<and>
   ExpiresAt promise_x < 2000000000 \<and>
   fst (handlePost (server_with promise_x) dry_post ''x'' 2000000000) =
     \<lparr>StatusCode = 202, Header = [(''x-jc-promise-ttl'', Number 30000)], Body = []\<rparr> \<and>
   promises (snd (handlePost (server_with promise_x) dry_post ''x'' 2000000000)) ''x'' = None \<and>
   postHeadersPass (storage (server_with promise_x)) plain_post ''x'' \<and>
   dryRunHeader plain_post \<noteq> ''true'' \<and>
   StatusCode (fst (handlePost
       (snd (handlePost (server_with promise_x) dry_post ''x'' 2000000000))
       plain_post ''x'' 2000000001)) = 202"
  using handlePost_dry_run [of "server_with promise_x" "''x''" 2000000000 dry_post plain_post
      2000000001] New_inv [of 1000]
  by (auto simp add: server_with_def promise_x_def dry_post_def plain_post_def
      postHeadersPass_def GetEntry_def Get_def validateKey_def MaxKeySizeBytes_def
      requestedPromiseTTL_def defaultPromiseTTL_def Second_def Millisecond_def
      Milliseconds_def quo_def StatusAccepted_def headerPromiseTTL_def NewInMemoryStorage_def)

text \<open>
  C9, the claim as written fails: the key \<open>x\<close> has no stored entry and no live promise (its
  promise expired at 1.5 s, the request comes at 2 s), the dry run is accepted, and the
  promise map is not left unchanged: the expired promise is gone.
\<close>

theorem handlePost_dry_run_counterexample:
  "snd (handlePost fresh_server (post_with HeaderAbsent) ''x'' 0) = server_with promise_x \<and>
   fst (GetEntry (storage (server_with promise_x)) ''x'' 2000000000) = Inl ErrKeyNotFound \<and>
   ExpiresAt promise_x < 2000000000 \<and>
   dryRunHeader dry_post = ''true'' \<and>
   StatusCode (fst (handlePost (server_with promise_x) dry_post ''x'' 2000000000))
     = StatusAccepted \<and>
   promises (server_with promise_x) ''x'' = Some promise_x \<and>
   promises (snd (handlePost (server_with promise_x) dry_post ''x'' 2000000000)) ''x'' = None \<and>
   promises (snd (handlePost (server_with promise_x) dry_post ''x'' 2000000000))
     \<noteq> promises (server_with promise_x)"
proof -
  have i: "storage_inv (storage (server_with promise_x))"
    using New_inv [of 1000] by (simp add: server_with_def)
  have g: "fst (GetEntry (storage (server_with promise_x)) ''x'' 2000000000) = Inl ErrKeyNotFound"
    by (simp add: server_with_def GetEntry_def Get_def validateKey_def MaxKeySizeBytes_def
        NewInMemoryStorage_def)
  have h: "postHeadersPass (storage (server_with promise_x)) dry_post ''x''"
    by (simp add: postHeadersPass_def dry_post_def)
  have t: "dryRunHeader dry_post = ''true''" by (simp add: dry_post_def)
  have p: "promises (server_with promise_x) ''x'' = Some promise_x"
    by (simp add: server_with_def)
  have e: "ExpiresAt promise_x < 2000000000" by (simp add: promise_x_def)
  have l: "case promises (server_with promise_x) ''x'' of None \<Rightarrow> True
           | Some p \<Rightarrow> ExpiresAt p < 2000000000"
    by (simp add: p e)
  note d = dry_run_response [OF i g h t l]
  have n: "promises (snd (handlePost (server_with promise_x) dry_post ''x'' 2000000000)) ''x'' = None"
    by (simp add: d)
  then have "promises (snd (handlePost (server_with promise_x) dry_post ''x'' 2000000000))
     \<noteq> promises (server_with promise_x)"
    using p by (metis option.distinct(1))
  then show ?thesis using g e t p n by (simp add: d server_with_reachable)
qed


section \<open>The prefix law of GetNodes\<close>

text \<open>
  C8.  Let the nodes have pairwise distinct identity strings, let \<open>sort.Slice\<close> meet its
  contract on their scores, and let \<open>0 < k1 < k2\<close>.  Then \<open>GetNodes(key, k1)\<close> is the list of
  the first \<open>min(k1, |nodes|)\<close> elements of \<open>GetNodes(key, k2)\<close>.  In particular the fast
  paths agree with the sort path: \<open>GetNodes(key, 1)\<close> and \<open>GetNodes(key, 2)\<close> are the first
  one and the first two nodes of the sorted scores.
\<close>

theorem GetNodes_prefix:
  assumes "distinct (map identityString nodes)"
    and "sorts sort_Slice scoreBetter (map (computeScore h key) nodes)"
    and "0 < k1" and "k1 < k2"
  shows "GetNodes sort_Slice h nodes key k1 =
           take (min (nat k1) (length nodes)) (GetNodes sort_Slice h nodes key k2) \<and>
         GetNodes sort_Slice h nodes key 1 =
           take 1 (map node (sort_Slice scoreBetter (map (computeScore h key) nodes))) \<and>
         GetNodes sort_Slice h nodes key 2 =
           take 2 (map node (sort_Slice scoreBetter (map (computeScore h key) nodes)))"
proof -
  let ?L = "map node (sort_Slice scoreBetter (map (computeScore h key) nodes))"
  have "mset (sort_Slice scoreBetter (map (computeScore h key) nodes)) =
        mset (map (computeScore h key) nodes)"
    using assms(2) by (simp add: sorts_def)
  then have "length (sort_Slice scoreBetter (map (computeScore h key) nodes)) = length nodes"
    using mset_eq_length by fastforce
  then have len: "length ?L = length nodes" by simp
  have k1: "GetNodes sort_Slice h nodes key k1 = take (nat k1) ?L"
    using assms(1,2,3) by (rule GetNodes_as_take)
  have k2: "GetNodes sort_Slice h nodes key k2 = take (nat k2) ?L"
    using assms(1,2) assms(3,4) by (intro GetNodes_as_take) simp_all
  have "take (min (nat k1) (length nodes)) (take (nat k2) ?L) = take (nat k1) ?L"
    using assms(3,4) len by (simp add: min_def)
  then have "GetNodes sort_Slice h nodes key k1 =
           take (min (nat k1) (length nodes)) (GetNodes sort_Slice h nodes key k2)"
    by (simp add: k1 k2)
  moreover have "GetNodes sort_Slice h nodes key 1 = take 1 ?L"
    using GetNodes_as_take [OF assms(1,2), of 1] by simp
  moreover have "GetNodes sort_Slice h nodes key 2 = take 2 ?L"
    using GetNodes_as_take [OF assms(1,2), of 2] by simp
  ultimately show ?thesis by simp
qed

theorem GetNodes_prefix_witness:
  "distinct (map identityString [node_a, node_b, node_c]) \<and>
   sorts insertion_sort scoreBetter (map (computeScore byte_sum ''k'') [node_a, node_b, node_c]) \<and>
   (0::int) < 1 \<and> (1::int) < 3 \<and>
   GetNodes insertion_sort byte_sum [node_a, node_b, node_c] ''k'' 1 =
     take (min (nat 1) (length [node_a, node_b, node_c]))
       (GetNodes insertion_sort byte_sum [node_a, node_b, node_c] ''k'' 3) \<and>
   GetNodes insertion_sort byte_sum [node_a, node_b, node_c] ''k'' 1 = [node_b] \<and>
   GetNodes insertion_sort byte_sum [node_a, node_b, node_c] ''k'' 2 = [node_b, node_c]"
proof -
  have d: "distinct (map identityString [node_a, node_b, node_c])"
    by (simp add: node_a_def node_b_def node_c_def)
  have s: "sorts insertion_sort scoreBetter
             (map (computeScore byte_sum ''k'') [node_a, node_b, node_c])"
    by (simp add: sorts_def scores_abc sorted_abc)
       (simp add: scoreBetter_def node_a_def node_b_def node_c_def)
  show ?thesis
    using GetNodes_prefix [OF d s, of 1 3] d s by (auto simp add: scores_abc sorted_abc)
qed


end
